theory Spec2Isabelle
  imports Main "HOL-Library.Char_ord" "HOL-Library.List_Lexorder"
begin

section \<open>Strings and character classes\<close>

text \<open>
  The program is \<^verbatim>\<open>concatenate_diagrams.py\<close>. Its strings are modelled as \<^typ>\<open>string\<close>,
  a list of characters read as the code points 0..255. The classes below are the ones
  Python's \<^verbatim>\<open>re\<close> module and \<^verbatim>\<open>str.strip\<close> use on that range: \<^verbatim>\<open>\s\<close> and
  \<^verbatim>\<open>str.isspace\<close> agree there, and \<^verbatim>\<open>\w\<close> is the alphanumeric characters and the
  underscore.
\<close>

definition is_space :: "char \<Rightarrow> bool" where
  "is_space c =
     (let n = (of_char c :: nat)
      in (9 \<le> n \<and> n \<le> 13) \<or> (28 \<le> n \<and> n \<le> 32) \<or> n = 133 \<or> n = 160)"

definition is_word :: "char \<Rightarrow> bool" where
  "is_word c =
     (let n = (of_char c :: nat)
      in (48 \<le> n \<and> n \<le> 57) \<or> (65 \<le> n \<and> n \<le> 90) \<or> n = 95 \<or> (97 \<le> n \<and> n \<le> 122)
         \<or> n = 170 \<or> n = 178 \<or> n = 179 \<or> n = 181 \<or> n = 185 \<or> n = 186
         \<or> (188 \<le> n \<and> n \<le> 190) \<or> (192 \<le> n \<and> n \<le> 214) \<or> (216 \<le> n \<and> n \<le> 246)
         \<or> (248 \<le> n \<and> n \<le> 255))"

text \<open>The class \<^verbatim>\<open>[\w\.]\<close> of the two identifier patterns.\<close>

definition is_name_char :: "char \<Rightarrow> bool" where
  "is_name_char c = (is_word c \<or> c = CHR ''.'')"

text \<open>\<^verbatim>\<open>.\<close> without the DOTALL flag: every character but the line feed.\<close>

definition is_dot :: "char \<Rightarrow> bool" where
  "is_dot c = (c \<noteq> CHR 0x0A)"

text \<open>\<^verbatim>\<open>[<|-]\<close> and \<^verbatim>\<open>[->]\<close>, the two classes of the connector token.\<close>

definition is_conn_head :: "char \<Rightarrow> bool" where
  "is_conn_head c = (c = CHR ''<'' \<or> c = CHR ''|'' \<or> c = CHR ''-'')"

definition is_conn_tail :: "char \<Rightarrow> bool" where
  "is_conn_tail c = (c = CHR ''-'' \<or> c = CHR ''>'')"

text \<open>\<^verbatim>\<open>str.strip()\<close>: leading and trailing whitespace removed.\<close>

definition strip :: "string \<Rightarrow> string" where
  "strip s = rev (dropWhile is_space (rev (dropWhile is_space s)))"

section \<open>Regular expressions as the program uses them\<close>

text \<open>
  Every pattern of the program is a sequence of character classes, each with one of the
  greedy quantifiers of \<^verbatim>\<open>re\<close>: exactly one, \<^verbatim>\<open>?\<close>, \<^verbatim>\<open>*\<close> or \<^verbatim>\<open>+\<close>. \<^verbatim>\<open>re.match\<close>
  anchors at the start of the string and need not reach its end. The matcher is the
  backtracking one: an item first takes as many characters as it can, and gives them
  back one at a time while the rest of the pattern fails. The result is the piece of
  the string each item took, in order; a capture group is the concatenation of the
  pieces of its items.
\<close>

datatype quant = One | Opt | Star | Plus

type_synonym item = "(char \<Rightarrow> bool) \<times> quant"
type_synonym regex = "item list"

fun min_count :: "quant \<Rightarrow> nat" where
  "min_count One = 1"
| "min_count Opt = 0"
| "min_count Star = 0"
| "min_count Plus = 1"

fun max_count :: "quant \<Rightarrow> nat \<Rightarrow> nat" where
  "max_count One n = min n 1"
| "max_count Opt n = min n 1"
| "max_count Star n = n"
| "max_count Plus n = n"

text \<open>
  \<open>try_counts k s lo hi\<close> lets the current item take \<open>hi\<close> characters, then \<open>hi - 1\<close>, down
  to \<open>lo\<close>, and returns the first split on which the continuation \<open>k\<close> succeeds.
\<close>

primrec try_counts ::
  "(string \<Rightarrow> string list option) \<Rightarrow> string \<Rightarrow> nat \<Rightarrow> nat \<Rightarrow> string list option" where
  "try_counts k s lo 0 = (if lo = 0 then map_option (Cons []) (k s) else None)"
| "try_counts k s lo (Suc h) =
     (if Suc h < lo then None
      else case k (drop (Suc h) s) of
             Some ps \<Rightarrow> Some (take (Suc h) s # ps)
           | None \<Rightarrow> try_counts k s lo h)"

primrec re_match :: "regex \<Rightarrow> string \<Rightarrow> string list option" where
  "re_match [] s = Some []"
| "re_match (it # its) s =
     try_counts (re_match its) s (min_count (snd it))
       (max_count (snd it) (length (takeWhile (fst it) s)))"

text \<open>A literal word is one item per character.\<close>

definition lit :: "string \<Rightarrow> regex" where
  "lit w = map (\<lambda>c. ((=) c, One)) w"

text \<open>The text of the pieces \<open>i\<close> (included) to \<open>j\<close> (excluded).\<close>

definition pieces :: "string list \<Rightarrow> nat \<Rightarrow> nat \<Rightarrow> string" where
  "pieces ps i j = concat (take (j - i) (drop i ps))"

section \<open>The sanitizer of method signatures\<close>

text \<open>\<^verbatim>\<open>char_map\<close>, and \<^verbatim>\<open>pattern.sub\<close> with the lookup in it as the replacement.\<close>

definition char_map :: "(string \<times> string) list" where
  "char_map = [(''{'', ''&#123;''), (''}'', ''&#125;'')]"

definition pattern_sub :: "string \<Rightarrow> string" where
  "pattern_sub s =
     concat (map (\<lambda>c. if [c] \<in> set (map fst char_map)
                       then (case map_of char_map [c] of Some v \<Rightarrow> v | None \<Rightarrow> [c])
                       else [c]) s)"

text \<open>\<^verbatim>\<open>^(\s*[-+]\w+\([^)]*\))(.*)\<close>: group 1 is the pieces 0 to 5, group 2 the piece 6.\<close>

definition method_signature_pattern :: regex where
  "method_signature_pattern =
     [(is_space, Star), (\<lambda>c. c = CHR ''-'' \<or> c = CHR ''+'', One), (is_word, Plus),
      ((=) CHR ''('', One), (\<lambda>c. c \<noteq> CHR '')'', Star), ((=) CHR '')'', One),
      (is_dot, Star)]"

definition replace_problematic_characters_in_signature :: "string \<Rightarrow> string" where
  "replace_problematic_characters_in_signature line =
     (case re_match method_signature_pattern line of
        Some ps \<Rightarrow>
          (let method_signature = pieces ps 0 6;
               rest_of_line = pieces ps 6 7;
               replaced_signature = pattern_sub method_signature
           in replaced_signature @ rest_of_line)
      | None \<Rightarrow> line)"

section \<open>Identifier normalization\<close>

text \<open>\<^verbatim>\<open>class_name.replace('.', '_')\<close>.\<close>

definition replace_dots_with_underscores :: "string \<Rightarrow> string" where
  "replace_dots_with_underscores class_name =
     map (\<lambda>c. if c = CHR ''.'' then CHR ''_'' else c) class_name"

section \<open>The declaration closer\<close>

text \<open>
  \<^verbatim>\<open>^(\s*class\s+)([\w\.]+)(\s*\{?[^}]*)\<close>: group 1 is the pieces 0 to 6, group 2 the
  piece 7, group 3 the pieces 8 to 10.
\<close>

definition class_declaration_pattern :: regex where
  "class_declaration_pattern =
     [(is_space, Star)] @ lit ''class'' @ [(is_space, Plus), (is_name_char, Plus),
      (is_space, Star), ((=) CHR ''{'', Opt), (\<lambda>c. c \<noteq> CHR ''}'', Star)]"

text \<open>
  \<^verbatim>\<open>^\s*([\w\.]+)\s*([<|-]+[->]+)\s*([\w\.]+)\<close>: group 1 is the piece 1, group 2 the
  pieces 3 and 4, group 3 the piece 6.
\<close>

definition relationship_pattern :: regex where
  "relationship_pattern =
     [(is_space, Star), (is_name_char, Plus), (is_space, Star), (is_conn_head, Plus),
      (is_conn_tail, Plus), (is_space, Star), (is_name_char, Plus)]"

text \<open>\<^verbatim>\<open>^(\s*)\<close>, matched again on a relationship line for its leading whitespace.\<close>

definition leading_spaces_pattern :: regex where
  "leading_spaces_pattern = [(is_space, Star)]"

text \<open>The two sets and the list that the scan of the lines accumulates.\<close>

record scan_state =
  declared_classes :: "string set"
  referenced_classes :: "string set"
  processed_lines :: "string list"

definition init_state :: scan_state where
  "init_state = \<lparr>declared_classes = {}, referenced_classes = {}, processed_lines = []\<rparr>"

text \<open>The body of the loop over \<^verbatim>\<open>output_lines\<close>.\<close>

definition scan_line :: "scan_state \<Rightarrow> string \<Rightarrow> scan_state" where
  "scan_line st line =
     (case re_match class_declaration_pattern line of
        Some ps \<Rightarrow>
          (let prefix = pieces ps 0 7;
               class_name = strip (pieces ps 7 8);
               suffix = pieces ps 8 11;
               class_name_underscored = replace_dots_with_underscores class_name;
               new_line = prefix @ class_name_underscored @ suffix
           in st\<lparr>declared_classes := insert class_name_underscored (declared_classes st),
                 processed_lines := processed_lines st @ [new_line]\<rparr>)
      | None \<Rightarrow>
          (case re_match relationship_pattern line of
             Some ps \<Rightarrow>
               (let source_class = strip (pieces ps 1 2);
                    relationship = strip (pieces ps 3 5);
                    target_class = strip (pieces ps 6 7);
                    source_class_underscored = replace_dots_with_underscores source_class;
                    target_class_underscored = replace_dots_with_underscores target_class;
                    leading_spaces =
                      (case re_match leading_spaces_pattern line of
                         Some ls \<Rightarrow> pieces ls 0 1
                       | None \<Rightarrow> []);
                    new_line = leading_spaces @ source_class_underscored @ '' '' @ relationship
                               @ '' '' @ target_class_underscored
                in st\<lparr>referenced_classes :=
                        insert target_class_underscored
                          (insert source_class_underscored (referenced_classes st)),
                      processed_lines := processed_lines st @ [new_line]\<rparr>)
           | None \<Rightarrow> st\<lparr>processed_lines := processed_lines st @ [line]\<rparr>))"

definition scan_lines :: "string list \<Rightarrow> scan_state" where
  "scan_lines output_lines = foldl scan_line init_state output_lines"

text \<open>List indexing and slicing as Python has them: an index out of range raises.\<close>

datatype error = IndexError

definition py_index :: "'a list \<Rightarrow> int \<Rightarrow> error + 'a" where
  "py_index xs i =
     (if - int (length xs) \<le> i \<and> i < 0 then Inr (xs ! nat (int (length xs) + i))
      else if 0 \<le> i \<and> i < int (length xs) then Inr (xs ! nat i)
      else Inl IndexError)"

definition py_bound :: "'a list \<Rightarrow> int \<Rightarrow> nat" where
  "py_bound xs i = (if i < 0 then nat (int (length xs) + i) else nat i)"

definition slice_to :: "'a list \<Rightarrow> int \<Rightarrow> 'a list" where
  "slice_to xs i = take (py_bound xs i) xs"

definition slice_from :: "'a list \<Rightarrow> int \<Rightarrow> 'a list" where
  "slice_from xs i = drop (py_bound xs i) xs"

text \<open>
  The search for the closing fence, \<^verbatim>\<open>for i in range(len(processed_lines) - 1, -1, -1)\<close>:
  \<open>find_closing ls n\<close> looks at the indices \<open>n - 1\<close> down to 0.
\<close>

fun find_closing :: "string list \<Rightarrow> nat \<Rightarrow> error + int option" where
  "find_closing ls 0 = Inr None"
| "find_closing ls (Suc i) =
     (case py_index ls (int i) of
        Inl e \<Rightarrow> Inl e
      | Inr l \<Rightarrow> if strip l = ''```'' then Inr (Some (int i)) else find_closing ls i)"

definition ensure_classes_declared :: "string list \<Rightarrow> error + string list" where
  "ensure_classes_declared output_lines =
     (let st = scan_lines output_lines;
          missing_classes = referenced_classes st - declared_classes st
      in if missing_classes = {} then Inr (processed_lines st)
         else
           case find_closing (processed_lines st) (length (processed_lines st)) of
             Inl e \<Rightarrow> Inl e
           | Inr found \<Rightarrow>
               (let (lines1, closing_code_block_index) =
                      (case found of
                         None \<Rightarrow> (processed_lines st @ [[]],
                                  int (length (processed_lines st @ [[]])))
                       | Some i \<Rightarrow> (processed_lines st, i));
                    missing_class_declarations =
                      map (\<lambda>class_name. ''class '' @ class_name)
                        (sorted_list_of_set missing_classes)
                in case (if closing_code_block_index > 0
                         then (case py_index lines1 (closing_code_block_index - 1) of
                                 Inl e \<Rightarrow> Inl e
                               | Inr l \<Rightarrow> Inr (strip l \<noteq> []))
                         else Inr False) of
                     Inl e \<Rightarrow> Inl e
                   | Inr separate \<Rightarrow>
                       Inr (slice_to lines1 closing_code_block_index
                            @ (if separate then [[]] else []) @ missing_class_declarations
                            @ slice_from lines1 closing_code_block_index)))"

section \<open>Notions used in the statements\<close>

text \<open>
  A pattern rejects a class when it fails on every string that starts with a character
  of that class. A greedy item followed by a pattern that rejects its class never gives
  a character back.
\<close>

definition rejects :: "regex \<Rightarrow> (char \<Rightarrow> bool) \<Rightarrow> bool" where
  "rejects its P = (\<forall>c t. P c \<longrightarrow> re_match its (c # t) = None)"

text \<open>
  The method-signature shape in the words of the specification: optional leading
  whitespace, a visibility sigil, an identifier, a parenthesized parameter list that
  ends at the first closing parenthesis, and any suffix.
\<close>

definition signature_shape :: "string \<Rightarrow> bool" where
  "signature_shape line =
     (\<exists>ws sg w p rest.
        line = ws @ sg # w @ ''('' @ p @ '')'' @ rest
        \<and> list_all is_space ws \<and> (sg = CHR ''-'' \<or> sg = CHR ''+'')
        \<and> w \<noteq> [] \<and> list_all is_word w \<and> list_all (\<lambda>c. c \<noteq> CHR '')'') p)"

text \<open>
  What the scan does with one line: the line it emits and what it adds to the two sets.
  The scan of a list is the union of these, line by line (lemma \<open>scan_lines_eq\<close>).
\<close>

definition line_out :: "string \<Rightarrow> string" where
  "line_out line = last (processed_lines (scan_line init_state line))"

definition line_decl :: "string \<Rightarrow> string set" where
  "line_decl line = declared_classes (scan_line init_state line)"

definition line_refs :: "string \<Rightarrow> string set" where
  "line_refs line = referenced_classes (scan_line init_state line)"

text \<open>An identifier as the two patterns capture it: one or more word characters or dots.\<close>

definition is_identifier :: "string \<Rightarrow> bool" where
  "is_identifier s = (s \<noteq> [] \<and> list_all is_name_char s)"

text \<open>
  The missing set of a document, and the block of declarations synthesized for a set of
  identifiers: one bodiless line each, in the order of \<^verbatim>\<open>sorted\<close>.
\<close>

definition missing_of :: "string list \<Rightarrow> string set" where
  "missing_of ls = referenced_classes (scan_lines ls) - declared_classes (scan_lines ls)"

definition synthesized :: "string set \<Rightarrow> string list" where
  "synthesized m = map (\<lambda>class_name. ''class '' @ class_name) (sorted_list_of_set m)"

text \<open>
  The shapes of the closing pass in the words of the specification. A declaration line:
  optional whitespace, the keyword, whitespace, an identifier. A connector token:
  characters of \<^verbatim>\<open><|-\<close> followed by characters of \<^verbatim>\<open>->\<close>. A relationship line:
  optional whitespace, an identifier, a connector token and an identifier, with optional
  whitespace around the connector.
\<close>

definition declaration_shape :: "string \<Rightarrow> bool" where
  "declaration_shape line =
     (\<exists>ws0 ws1 nm rest.
        line = ws0 @ ''class'' @ ws1 @ nm @ rest
        \<and> list_all is_space ws0 \<and> ws1 \<noteq> [] \<and> list_all is_space ws1 \<and> is_identifier nm)"

definition is_connector :: "string \<Rightarrow> bool" where
  "is_connector conn =
     (\<exists>h t. conn = h @ t \<and> h \<noteq> [] \<and> list_all is_conn_head h
            \<and> t \<noteq> [] \<and> list_all is_conn_tail t)"

definition relationship_shape :: "string \<Rightarrow> bool" where
  "relationship_shape line =
     (\<exists>ws0 src ws1 conn ws2 tgt rest.
        line = ws0 @ src @ ws1 @ conn @ ws2 @ tgt @ rest
        \<and> list_all is_space ws0 \<and> is_identifier src \<and> list_all is_space ws1
        \<and> is_connector conn \<and> list_all is_space ws2 \<and> is_identifier tgt)"

text \<open>
  The document of the scenario of the closing pass, the input of the program's own test
  \<^verbatim>\<open>test_ensure_classes_declared\<close>.
\<close>

definition scenario_input :: "string list" where
  "scenario_input =
     [''```mermaid'',
      ''classDiagram'',
      ''    class ChatHistoryManager {'',
      ''        -chatHistory: CoreMessage[]'',
      ''        +addMessage(role: 'user' | 'assistant', content: string): void'',
      ''    }'',
      '''',
      ''    Extension --> vscode.ExtensionContext'',
      ''    Extension --> FilteredTreeDataProvider'',
      '''',
      ''```'']"

section \<open>The backtracking matcher on greedy items\<close>

lemma try_counts_top:
  "k (drop hi s) = Some ps \<Longrightarrow> lo \<le> hi \<Longrightarrow> try_counts k s lo hi = Some (take hi s # ps)"
  by (cases hi) auto

lemma try_counts_none:
  "(\<And>m. lo \<le> m \<Longrightarrow> m \<le> hi \<Longrightarrow> k (drop m s) = None) \<Longrightarrow> try_counts k s lo hi = None"
proof (induction hi)
  case 0
  then show ?case by auto
next
  case (Suc h)
  show ?case
  proof (cases "Suc h < lo")
    case True
    then show ?thesis by simp
  next
    case False
    then have "k (drop (Suc h) s) = None" using Suc.prems by simp
    moreover have "try_counts k s lo h = None" using Suc by simp
    ultimately show ?thesis by simp
  qed
qed

lemma try_counts_skip:
  "k (drop (Suc h) s) = None \<Longrightarrow> try_counts k s lo (Suc h) = (if Suc h < lo then None else try_counts k s lo h)"
  by simp

lemma drop_in_run:
  assumes "m < length (takeWhile P s)"
  shows "\<exists>c t. drop m s = c # t \<and> P c"
proof -
  have "m < length s" using assms length_takeWhile_le[of P s] by (meson le_trans not_le)
  then have d: "drop m s = s ! m # drop (Suc m) s" by (simp add: Cons_nth_drop_Suc)
  have "P (takeWhile P s ! m)" using assms by (meson nth_mem set_takeWhileD)
  then have "P (s ! m)" using assms by (simp add: takeWhile_nth)
  with d show ?thesis by blast
qed

lemma try_counts_run:
  assumes "rejects its P" "hi \<le> length (takeWhile P s)" 
  shows "try_counts (re_match its) s lo hi =
     (if hi < lo then None else if hi = length (takeWhile P s) then map_option (Cons (take hi s)) (re_match its (drop hi s)) else None)"
  using assms(2)
proof (induction hi)
  case 0
  show ?case
  proof (cases "length (takeWhile P s) = 0")
    case True
    then show ?thesis by (auto simp: )
  next
    case False
    then obtain c t where "drop 0 s = c # t" "P c" using drop_in_run[of 0 P s] by auto
    then have "re_match its s = None" using assms(1) by (auto simp: rejects_def)
    then show ?thesis using False by auto
  qed
next
  case (Suc h)
  show ?case
  proof (cases "Suc h = length (takeWhile P s)")
    case True
    show ?thesis
    proof (cases "re_match its (drop (Suc h) s)")
      case None
      have "try_counts (re_match its) s lo h = None"
        using Suc True by auto
      then have "try_counts (re_match its) s lo (Suc h) = None"
        using None by simp
      then show ?thesis using None True[symmetric] by simp
    next
      case (Some a)
      then have "try_counts (re_match its) s lo (Suc h) =
          (if Suc h < lo then None else Some (take (Suc h) s # a))"
        by simp
      then show ?thesis using Some True[symmetric] by simp
    qed
  next
    case False
    then have lt: "Suc h < length (takeWhile P s)" using Suc.prems by simp
    then obtain c t where "drop (Suc h) s = c # t" "P c" using drop_in_run by blast
    then have n: "re_match its (drop (Suc h) s) = None" using assms(1) by (auto simp: rejects_def)
    have "try_counts (re_match its) s lo h = None" using Suc lt by auto
    then show ?thesis using n False by simp
  qed
qed

lemma re_match_Star:
  "rejects its P \<Longrightarrow> re_match ((P, Star) # its) s = map_option (Cons (takeWhile P s)) (re_match its (dropWhile P s))"
  by (simp add: try_counts_run[where P=P] takeWhile_eq_take[symmetric] dropWhile_eq_drop[symmetric])

lemma re_match_Plus:
  "rejects its P \<Longrightarrow> re_match ((P, Plus) # its) s =
    (if takeWhile P s = [] then None else map_option (Cons (takeWhile P s)) (re_match its (dropWhile P s)))"
  by (auto simp add: try_counts_run[where P=P] takeWhile_eq_take[symmetric] dropWhile_eq_drop[symmetric])

lemma re_match_One:
  "re_match ((P, One) # its) s =
    (case s of [] \<Rightarrow> None | c # t \<Rightarrow> if P c then map_option (Cons [c]) (re_match its t) else None)"
proof (cases s)
  case Nil then show ?thesis by simp
next
  case (Cons c t)
  show ?thesis
  proof (cases "P c")
    case True
    then have "min (length (takeWhile P s)) 1 = Suc 0" using Cons by simp
    then show ?thesis using Cons True by (auto split: option.splits)
  next
    case False
    then show ?thesis using Cons by simp
  qed
qed

lemma re_match_Opt:
  "re_match ((P, Opt) # its) s =
    (case s of [] \<Rightarrow> map_option (Cons []) (re_match its [])
     | c # t \<Rightarrow> if P c then (case re_match its t of Some ps \<Rightarrow> Some ([c] # ps)
                                | None \<Rightarrow> map_option (Cons []) (re_match its (c # t)))
                else map_option (Cons []) (re_match its (c # t)))"
proof (cases s)
  case Nil then show ?thesis by simp
next
  case (Cons c t)
  show ?thesis
  proof (cases "P c")
    case True
    then have "min (length (takeWhile P s)) 1 = Suc 0" using Cons by simp
    then show ?thesis using Cons True by (auto split: option.splits)
  next
    case False
    then show ?thesis using Cons by simp
  qed
qed

lemma re_match_Star_last: "re_match [(P, Star)] s = Some [takeWhile P s]"
  by (simp add: try_counts_top takeWhile_eq_take[symmetric])

lemma rejects_One: "(\<And>c. P c \<Longrightarrow> \<not> Q c) \<Longrightarrow> rejects ((Q, One) # its) P"
  by (simp add: rejects_def re_match_One)

lemma rejects_Plus: "(\<And>c. P c \<Longrightarrow> \<not> Q c) \<Longrightarrow> rejects ((Q, Plus) # its) P"
  by (simp add: rejects_def)

lemma rejects_Star: "(\<And>c. P c \<Longrightarrow> \<not> Q c) \<Longrightarrow> rejects its P \<Longrightarrow> rejects ((Q, Star) # its) P"
  by (simp add: rejects_def)

text \<open>From here on the matcher is unfolded only through the lemmas above.\<close>

declare re_match.simps(2) [simp del]

section \<open>Character classes\<close>

lemma space_not_word: "is_space c \<Longrightarrow> \<not> is_word c"
  by (simp add: is_space_def is_word_def Let_def) arith

lemma space_not_name: "is_space c \<Longrightarrow> \<not> is_name_char c"
  using space_not_word[of c] by (auto simp: is_name_char_def is_space_def)

lemma word_not_space: "is_word c \<Longrightarrow> \<not> is_space c"
  using space_not_word by blast

lemma name_not_space: "is_name_char c \<Longrightarrow> \<not> is_space c"
  using space_not_name by blast

lemma is_space_blank [simp]: "is_space CHR '' ''"
  by (simp add: is_space_def)

lemma conn_head_not_space: "is_conn_head c \<Longrightarrow> \<not> is_space c"
  by (auto simp: is_conn_head_def is_space_def)
lemma conn_head_not_name: "is_conn_head c \<Longrightarrow> \<not> is_name_char c"
  by (auto simp: is_conn_head_def is_name_char_def is_word_def)
lemma conn_tail_not_space: "is_conn_tail c \<Longrightarrow> \<not> is_space c"
  by (auto simp: is_conn_tail_def is_space_def)
lemma conn_tail_not_name: "is_conn_tail c \<Longrightarrow> \<not> is_name_char c"
  by (auto simp: is_conn_tail_def is_name_char_def is_word_def)

lemma span_unique:
  "list_all P xs \<Longrightarrow> ys = [] \<or> \<not> P (hd ys) \<Longrightarrow>
   takeWhile P (xs @ ys) = xs \<and> dropWhile P (xs @ ys) = ys"
  by (induction xs) (cases ys; simp)+

lemma span_split:
  "list_all P (takeWhile P s) \<and> (dropWhile P s = [] \<or> \<not> P (hd (dropWhile P s)))"
  by (metis (mono_tags, lifting) Ball_set hd_dropWhile set_takeWhileD)


lemma takeWhile_all: "list_all P (takeWhile P s)"
  by (induction s) auto

section \<open>The method-signature pattern\<close>

lemma sig_steps:
  defines "i5 \<equiv> [((=) CHR '')'', One), (is_dot, Star)]"
  defines "i4 \<equiv> (\<lambda>c. c \<noteq> CHR '')'', Star) # i5"
  defines "i3 \<equiv> ((=) CHR ''('', One) # i4"
  defines "i2 \<equiv> (is_word, Plus) # i3"
  defines "i1 \<equiv> (\<lambda>c. c = CHR ''-'' \<or> c = CHR ''+'', One) # i2"
  shows "re_match method_signature_pattern line
           = map_option (Cons (takeWhile is_space line)) (re_match i1 (dropWhile is_space line))"
    and "re_match i1 (sg # r1) =
           (if sg = CHR ''-'' \<or> sg = CHR ''+'' then map_option (Cons [sg]) (re_match i2 r1) else None)"
    and "re_match i1 [] = None"
    and "re_match i2 s = (if takeWhile is_word s = [] then None
           else map_option (Cons (takeWhile is_word s)) (re_match i3 (dropWhile is_word s)))"
    and "re_match i3 (p # r2) = (if p = CHR ''('' then map_option (Cons ''('') (re_match i4 r2) else None)"
    and "re_match i3 [] = None"
    and "re_match i4 s = map_option (Cons (takeWhile (\<lambda>c. c \<noteq> CHR '')'') s))
               (re_match i5 (dropWhile (\<lambda>c. c \<noteq> CHR '')'') s))"
    and "re_match i5 (q # r3) = (if q = CHR '')'' then Some ['')'', takeWhile is_dot r3] else None)"
    and "re_match i5 [] = None"
proof -
  have r5: "rejects i5 (\<lambda>c. c \<noteq> CHR '')'')"
    unfolding i5_def by (rule rejects_One) auto
  have r3: "rejects i3 is_word"
    unfolding i3_def by (rule rejects_One) (auto simp: is_word_def)
  have r1: "rejects i1 is_space"
    unfolding i1_def by (rule rejects_One) (auto simp: is_space_def)
  show "re_match method_signature_pattern line
           = map_option (Cons (takeWhile is_space line)) (re_match i1 (dropWhile is_space line))"
    unfolding method_signature_pattern_def i1_def i2_def i3_def i4_def i5_def
    by (rule re_match_Star[OF r1[unfolded i1_def i2_def i3_def i4_def i5_def]])
  show "re_match i1 (sg # r1) =
           (if sg = CHR ''-'' \<or> sg = CHR ''+'' then map_option (Cons [sg]) (re_match i2 r1) else None)"
    unfolding i1_def by (simp add: re_match_One)
  show "re_match i1 [] = None" unfolding i1_def by (simp add: re_match_One)
  show "re_match i2 s = (if takeWhile is_word s = [] then None
           else map_option (Cons (takeWhile is_word s)) (re_match i3 (dropWhile is_word s)))"
    unfolding i2_def by (rule re_match_Plus[OF r3])
  show "re_match i3 (p # r2) = (if p = CHR ''('' then map_option (Cons ''('') (re_match i4 r2) else None)"
    unfolding i3_def by (auto simp add: re_match_One)
  show "re_match i3 [] = None" unfolding i3_def by (simp add: re_match_One)
  show "re_match i4 s = map_option (Cons (takeWhile (\<lambda>c. c \<noteq> CHR '')'') s))
               (re_match i5 (dropWhile (\<lambda>c. c \<noteq> CHR '')'') s))"
    unfolding i4_def by (rule re_match_Star[OF r5])
  show "re_match i5 (q # r3) = (if q = CHR '')'' then Some ['')'', takeWhile is_dot r3] else None)"
    unfolding i5_def by (auto simp add: re_match_One re_match_Star_last)
  show "re_match i5 [] = None" unfolding i5_def by (simp add: re_match_One)
qed

lemma sig_recognise:
  assumes "list_all is_space ws" "sg = CHR ''-'' \<or> sg = CHR ''+''" "w \<noteq> []" "list_all is_word w"
    "list_all (\<lambda>c. c \<noteq> CHR '')'') p"
  shows "re_match method_signature_pattern (ws @ sg # w @ ''('' @ p @ '')'' @ rest)
         = Some [ws, [sg], w, ''('', p, '')'', takeWhile is_dot rest]"
proof -
  have a: "takeWhile is_space (ws @ sg # w @ ''('' @ p @ '')'' @ rest) = ws
         \<and> dropWhile is_space (ws @ sg # w @ ''('' @ p @ '')'' @ rest) = sg # w @ ''('' @ p @ '')'' @ rest"
    using assms(1,2) by (intro span_unique) (auto simp: is_space_def)
  have b: "takeWhile is_word (w @ ''('' @ p @ '')'' @ rest) = w
         \<and> dropWhile is_word (w @ ''('' @ p @ '')'' @ rest) = ''('' @ p @ '')'' @ rest"
    using assms(4) by (intro span_unique) (auto simp: is_word_def)
  have c: "takeWhile (\<lambda>c. c \<noteq> CHR '')'') (p @ '')'' @ rest) = p
         \<and> dropWhile (\<lambda>c. c \<noteq> CHR '')'') (p @ '')'' @ rest) = '')'' @ rest"
    using assms(5) by (intro span_unique) auto
  show ?thesis
    using assms(2,3) a b c by (simp add: sig_steps)
qed

lemma sig_invert:
  assumes "re_match method_signature_pattern line = Some ps"
  shows "\<exists>ws sg w p rest. line = ws @ sg # w @ ''('' @ p @ '')'' @ rest
          \<and> list_all is_space ws \<and> (sg = CHR ''-'' \<or> sg = CHR ''+'') \<and> w \<noteq> []
          \<and> list_all is_word w \<and> list_all (\<lambda>c. c \<noteq> CHR '')'') p
          \<and> ps = [ws, [sg], w, ''('', p, '')'', takeWhile is_dot rest]"
proof -
  let ?np = "\<lambda>c. c \<noteq> CHR '')''"
  obtain sg r1 where d0: "dropWhile is_space line = sg # r1"
    using assms by (cases "dropWhile is_space line") (auto simp: sig_steps)
  have sg: "sg = CHR ''-'' \<or> sg = CHR ''+''"
    using assms d0 by (auto simp: sig_steps split: if_splits)
  have w: "takeWhile is_word r1 \<noteq> []"
    using assms d0 sg by (auto simp: sig_steps split: if_splits)
  obtain p r2 where d1: "dropWhile is_word r1 = p # r2"
    using assms d0 sg w by (cases "dropWhile is_word r1") (auto simp: sig_steps)
  have p: "p = CHR ''(''"
    using assms d0 sg w d1 by (auto simp: sig_steps split: if_splits)
  obtain q r3 where d2: "dropWhile ?np r2 = q # r3"
    using assms d0 sg w d1 p by (cases "dropWhile ?np r2") (auto simp: sig_steps)
  have q: "q = CHR '')''"
    using assms d0 sg w d1 p d2 by (auto simp: sig_steps split: if_splits)
  have ps: "ps = [takeWhile is_space line, [sg], takeWhile is_word r1, ''('', takeWhile ?np r2,
                 '')'', takeWhile is_dot r3]"
    using assms d0 sg w d1 p d2 q by (auto simp: sig_steps)
  have "line = takeWhile is_space line @ sg # r1"
    using d0 takeWhile_dropWhile_id[of is_space line] by simp
  moreover have "r1 = takeWhile is_word r1 @ ''('' @ r2"
    using d1 p takeWhile_dropWhile_id[of is_word r1] by simp
  moreover have "r2 = takeWhile ?np r2 @ '')'' @ r3"
    using d2 q takeWhile_dropWhile_id[of ?np r2] by simp
  ultimately have "line = takeWhile is_space line @ sg # takeWhile is_word r1 @ ''('' @ takeWhile ?np r2 @ '')'' @ r3"
    by simp
  then show ?thesis
    using sg w ps takeWhile_all by blast
qed

section \<open>The declaration pattern\<close>

lemma re_match_Star_top:
  "re_match its (dropWhile P s) = Some ps \<Longrightarrow> re_match ((P, Star) # its) s = Some (takeWhile P s # ps)"
  by (simp add: re_match.simps(2) try_counts_top takeWhile_eq_take[symmetric] dropWhile_eq_drop[symmetric])

lemma re_match_Plus_top:
  "re_match its (dropWhile P s) = Some ps \<Longrightarrow>
   re_match ((P, Plus) # its) s = (if takeWhile P s = [] then None else Some (takeWhile P s # ps))"
proof (cases "takeWhile P s = []")
  case True
  then show ?thesis by (simp add: re_match.simps(2))
next
  case False
  then have "1 \<le> length (takeWhile P s)" by (simp add: Suc_leI)
  moreover assume "re_match its (dropWhile P s) = Some ps"
  ultimately show ?thesis using False
    by (simp add: re_match.simps(2) try_counts_top takeWhile_eq_take[symmetric] dropWhile_eq_drop[symmetric])
qed

lemma re_match_lit:
  "re_match (lit w @ its) s =
     (if take (length w) s = w
      then map_option ((@) (map (\<lambda>c. [c]) w)) (re_match its (drop (length w) s))
      else None)"
proof (induction w arbitrary: s)
  case Nil
  have "((@) ([]::string list)) = id" by (rule ext) simp
  then show ?case by (simp add: lit_def option.map_id)
next
  case (Cons c w)
  have "lit (c # w) @ its = ((=) c, One) # (lit w @ its)" by (simp add: lit_def)
  then show ?case using Cons
    by (cases s) (auto simp: re_match_One option.map_comp comp_def)
qed

lemma takeWhile_through:
  "list_all P xs \<Longrightarrow> takeWhile P (xs @ ys) = xs @ takeWhile P ys"
  by (induction xs) auto

lemma decl_suffix:
  "\<exists>a b c. re_match [(is_space, Star), ((=) CHR ''{'', Opt), (\<lambda>c. c \<noteq> CHR ''}'', Star)] s = Some [a, b, c]
     \<and> a @ b @ c = takeWhile (\<lambda>c. c \<noteq> CHR ''}'') s"
proof -
  let ?nb = "\<lambda>c. c \<noteq> CHR ''}''"
  let ?k9 = "[((=) CHR ''{'', Opt), (?nb, Star)]"
  let ?a = "takeWhile is_space s"
  let ?r = "dropWhile is_space s"
  have sp: "list_all ?nb ?a"
    using takeWhile_all[of is_space s] by (auto simp: list_all_iff is_space_def)
  have s: "s = ?a @ ?r" by simp
  have "\<exists>b c. re_match ?k9 ?r = Some [b, c] \<and> b @ c = takeWhile ?nb ?r"
  proof (cases ?r)
    case Nil
    show ?thesis unfolding Nil by (simp add: re_match_Opt re_match_Star_last)
  next
    case (Cons x t)
    show ?thesis unfolding Cons by (auto simp: re_match_Opt re_match_Star_last)
  qed
  then obtain b c where k9: "re_match ?k9 ?r = Some [b, c]" and bc: "b @ c = takeWhile ?nb ?r"
    by blast
  have "re_match ((is_space, Star) # ?k9) s = Some [?a, b, c]"
    using re_match_Star_top[OF k9] .
  moreover have "?a @ b @ c = takeWhile ?nb s"
    using takeWhile_through[OF sp, of ?r] bc by simp
  ultimately show ?thesis by blast
qed

lemma decl_steps:
  defines "k8 \<equiv> [(is_space, Star), ((=) CHR ''{'', Opt), (\<lambda>c. c \<noteq> CHR ''}'', Star)]"
  defines "k7 \<equiv> (is_name_char, Plus) # k8"
  defines "k6 \<equiv> (is_space, Plus) # k7"
  shows "re_match class_declaration_pattern line =
           map_option (Cons (takeWhile is_space line)) (re_match (lit ''class'' @ k6) (dropWhile is_space line))"
    and "re_match (lit ''class'' @ k6) s =
           (if take 5 s = ''class''
            then map_option ((@) [''c'', ''l'', ''a'', ''s'', ''s'']) (re_match k6 (drop 5 s))
            else None)"
    and "re_match k6 s = (if takeWhile is_space s = [] then None
           else map_option (Cons (takeWhile is_space s)) (re_match k7 (dropWhile is_space s)))"
    and "re_match k7 s = (if takeWhile is_name_char s = [] then None
           else Some (takeWhile is_name_char s # the (re_match k8 (dropWhile is_name_char s))))"
proof -
  have r7: "rejects k7 is_space"
    unfolding k7_def by (rule rejects_Plus) (rule space_not_name)
  have r1: "rejects (lit ''class'' @ k6) is_space"
    unfolding lit_def by simp (rule rejects_One, auto simp: is_space_def)
  have "class_declaration_pattern = (is_space, Star) # (lit ''class'' @ k6)"
    by (simp add: class_declaration_pattern_def k6_def k7_def k8_def)
  then show "re_match class_declaration_pattern line =
           map_option (Cons (takeWhile is_space line)) (re_match (lit ''class'' @ k6) (dropWhile is_space line))"
    using re_match_Star[OF r1] by simp
  show "re_match (lit ''class'' @ k6) s =
           (if take 5 s = ''class''
            then map_option ((@) [''c'', ''l'', ''a'', ''s'', ''s'']) (re_match k6 (drop 5 s))
            else None)"
    by (simp add: re_match_lit eval_nat_numeral)
  show "re_match k6 s = (if takeWhile is_space s = [] then None
           else map_option (Cons (takeWhile is_space s)) (re_match k7 (dropWhile is_space s)))"
    unfolding k6_def by (rule re_match_Plus[OF r7])
  obtain a b c where "re_match k8 (dropWhile is_name_char s) = Some [a, b, c]"
    using decl_suffix[of "dropWhile is_name_char s"] unfolding k8_def by blast
  then show "re_match k7 s = (if takeWhile is_name_char s = [] then None
           else Some (takeWhile is_name_char s # the (re_match k8 (dropWhile is_name_char s))))"
    unfolding k7_def using re_match_Plus_top[of k8 is_name_char s] by simp
qed

lemma decl_recognise:
  assumes "list_all is_space ws0" "ws1 \<noteq> []" "list_all is_space ws1" "nm \<noteq> []"
    "list_all is_name_char nm" "rest = [] \<or> \<not> is_name_char (hd rest)"
  shows "\<exists>ps. re_match class_declaration_pattern (ws0 @ ''class'' @ ws1 @ nm @ rest) = Some ps
           \<and> pieces ps 0 7 = ws0 @ ''class'' @ ws1 \<and> pieces ps 7 8 = nm
           \<and> pieces ps 8 11 = takeWhile (\<lambda>c. c \<noteq> CHR ''}'') rest"
proof -
  let ?k8 = "[(is_space, Star), ((=) CHR ''{'', Opt), (\<lambda>c. c \<noteq> CHR ''}'', Star)]"
  have a: "takeWhile is_space (ws0 @ ''class'' @ ws1 @ nm @ rest) = ws0
         \<and> dropWhile is_space (ws0 @ ''class'' @ ws1 @ nm @ rest) = ''class'' @ ws1 @ nm @ rest"
    using assms(1) by (intro span_unique) (auto simp: is_space_def)
  have "is_name_char (hd (nm @ rest))"
    using assms(4,5) by (cases nm) auto
  then have "\<not> is_space (hd (nm @ rest))" by (rule name_not_space)
  then have b: "takeWhile is_space (ws1 @ nm @ rest) = ws1
         \<and> dropWhile is_space (ws1 @ nm @ rest) = nm @ rest"
    using assms(3) by (intro span_unique) auto
  have c: "takeWhile is_name_char (nm @ rest) = nm \<and> dropWhile is_name_char (nm @ rest) = rest"
    using assms(5,6) by (intro span_unique) auto
  obtain x y z where k8: "re_match ?k8 rest = Some [x, y, z]"
    and xyz: "x @ y @ z = takeWhile (\<lambda>c. c \<noteq> CHR ''}'') rest"
    using decl_suffix[of rest] by blast
  have "re_match class_declaration_pattern (ws0 @ ''class'' @ ws1 @ nm @ rest)
        = Some [ws0, ''c'', ''l'', ''a'', ''s'', ''s'', ws1, nm, x, y, z]"
    using assms(2,4) a b c k8 by (simp add: decl_steps)
  then show ?thesis using xyz by (simp add: pieces_def)
qed

lemma decl_invert:
  assumes "re_match class_declaration_pattern line = Some ps"
  shows "\<exists>ws0 ws1 nm rest. line = ws0 @ ''class'' @ ws1 @ nm @ rest
           \<and> list_all is_space ws0 \<and> ws1 \<noteq> [] \<and> list_all is_space ws1 \<and> nm \<noteq> []
           \<and> list_all is_name_char nm \<and> (rest = [] \<or> \<not> is_name_char (hd rest))
           \<and> pieces ps 0 7 = ws0 @ ''class'' @ ws1 \<and> pieces ps 7 8 = nm
           \<and> pieces ps 8 11 = takeWhile (\<lambda>c. c \<noteq> CHR ''}'') rest"
proof -
  let ?k8 = "[(is_space, Star), ((=) CHR ''{'', Opt), (\<lambda>c. c \<noteq> CHR ''}'', Star)]"
  let ?r0 = "dropWhile is_space line"
  let ?r1 = "drop 5 ?r0"
  let ?r2 = "dropWhile is_space ?r1"
  let ?r3 = "dropWhile is_name_char ?r2"
  have t: "take 5 ?r0 = ''class''"
    using assms by (auto simp: decl_steps split: if_splits)
  have w: "takeWhile is_space ?r1 \<noteq> []"
    using assms t by (auto simp: decl_steps split: if_splits)
  have n: "takeWhile is_name_char ?r2 \<noteq> []"
    using assms t w by (auto simp: decl_steps split: if_splits)
  obtain x y z where k8: "re_match ?k8 ?r3 = Some [x, y, z]"
    and xyz: "x @ y @ z = takeWhile (\<lambda>c. c \<noteq> CHR ''}'') ?r3"
    using decl_suffix[of ?r3] by blast
  have ps: "ps = [takeWhile is_space line, ''c'', ''l'', ''a'', ''s'', ''s'', takeWhile is_space ?r1,
                 takeWhile is_name_char ?r2, x, y, z]"
    using assms t w n k8 by (auto simp: decl_steps)
  have "?r0 = ''class'' @ ?r1"
    using t append_take_drop_id[of 5 ?r0] by simp
  then have "line = takeWhile is_space line @ ''class'' @ ?r1"
    using takeWhile_dropWhile_id[of is_space line] by simp
  moreover have "?r1 = takeWhile is_space ?r1 @ takeWhile is_name_char ?r2 @ ?r3"
    by simp
  ultimately have l: "line = takeWhile is_space line @ ''class'' @ takeWhile is_space ?r1
                       @ takeWhile is_name_char ?r2 @ ?r3"
    by simp
  have m: "?r3 = [] \<or> \<not> is_name_char (hd ?r3)"
    using span_split[of is_name_char ?r2] by simp
  have p1: "pieces ps 0 7 = takeWhile is_space line @ ''class'' @ takeWhile is_space ?r1"
    and p2: "pieces ps 7 8 = takeWhile is_name_char ?r2"
    and p3: "pieces ps 8 11 = takeWhile (\<lambda>c. c \<noteq> CHR ''}'') ?r3"
    using xyz unfolding ps by (simp_all add: pieces_def)
  show ?thesis
    using l w n m p1 p2 p3 takeWhile_all[of is_space] takeWhile_all[of is_name_char] by blast
qed

section \<open>The relationship pattern\<close>

lemma try_counts_SomeD:
  "try_counts k s lo hi = Some r \<Longrightarrow>
   \<exists>m ps. lo \<le> m \<and> m \<le> hi \<and> k (drop m s) = Some ps \<and> r = take m s # ps"
proof (induction hi)
  case 0
  then show ?case by (auto split: if_splits)
next
  case (Suc h)
  show ?case
  proof (cases "k (drop (Suc h) s)")
    case None
    then have "try_counts k s lo h = Some r" using Suc.prems by (simp split: if_splits)
    from Suc.IH[OF this] obtain m ps where
      "lo \<le> m" "m \<le> h" "k (drop m s) = Some ps" "r = take m s # ps" by blast
    then show ?thesis using le_SucI by blast
  next
    case (Some ps)
    then have "lo \<le> Suc h \<and> r = take (Suc h) s # ps"
      using Suc.prems by (simp split: if_splits)
    with Some show ?thesis by blast
  qed
qed

lemma try_counts_SomeI:
  "lo \<le> m \<Longrightarrow> m \<le> hi \<Longrightarrow> k (drop m s) = Some ps \<Longrightarrow> \<exists>r. try_counts k s lo hi = Some r"
proof (induction hi)
  case 0
  then show ?case by simp
next
  case (Suc h)
  show ?case
  proof (cases "m = Suc h")
    case True
    then show ?thesis using Suc.prems by simp
  next
    case False
    then have "m \<le> h" using Suc.prems by simp
    from Suc.IH[OF Suc.prems(1) this Suc.prems(3)] obtain r where "try_counts k s lo h = Some r" ..
    moreover have "\<not> Suc h < lo" using Suc.prems False by simp
    ultimately show ?thesis by (cases "k (drop (Suc h) s)") auto
  qed
qed

lemma name_not_conn: "is_name_char c \<Longrightarrow> \<not> (is_conn_head c \<or> is_conn_tail c)"
  using conn_head_not_name conn_tail_not_name by blast

lemma space_not_conn: "is_space c \<Longrightarrow> \<not> (is_conn_head c \<or> is_conn_tail c)"
  using conn_head_not_space conn_tail_not_space by blast

lemma rel_steps:
  defines "j6 \<equiv> [(is_name_char, Plus)]"
  defines "j5 \<equiv> (is_space, Star) # j6"
  defines "j4 \<equiv> (is_conn_tail, Plus) # j5"
  defines "j3 \<equiv> (is_conn_head, Plus) # j4"
  defines "j2 \<equiv> (is_space, Star) # j3"
  defines "j1 \<equiv> (is_name_char, Plus) # j2"
  shows "re_match relationship_pattern line =
           map_option (Cons (takeWhile is_space line)) (re_match j1 (dropWhile is_space line))"
    and "re_match j1 s = (if takeWhile is_name_char s = [] then None
           else map_option (Cons (takeWhile is_name_char s)) (re_match j2 (dropWhile is_name_char s)))"
    and "re_match j2 s = map_option (Cons (takeWhile is_space s)) (re_match j3 (dropWhile is_space s))"
    and "re_match j3 s = try_counts (re_match j4) s 1 (length (takeWhile is_conn_head s))"
    and "re_match j4 s = (if takeWhile is_conn_tail s = [] then None
           else map_option (Cons (takeWhile is_conn_tail s)) (re_match j5 (dropWhile is_conn_tail s)))"
    and "re_match j5 s = map_option (Cons (takeWhile is_space s)) (re_match j6 (dropWhile is_space s))"
    and "re_match j6 s = (if takeWhile is_name_char s = [] then None
           else Some [takeWhile is_name_char s])"
proof -
  have r6: "rejects j6 is_space"
    unfolding j6_def by (rule rejects_Plus) (rule space_not_name)
  have r5: "rejects j5 is_conn_tail"
    unfolding j5_def j6_def
    by (intro rejects_Star rejects_Plus conn_tail_not_space conn_tail_not_name)
  have r3: "rejects j3 is_space"
    unfolding j3_def by (rule rejects_Plus) (use conn_head_not_space in blast)+
  have r2: "rejects j2 is_name_char"
    unfolding j2_def j3_def
    by (intro rejects_Star rejects_Plus name_not_space) (use conn_head_not_name in blast)+
  have r1: "rejects j1 is_space"
    unfolding j1_def by (rule rejects_Plus) (rule space_not_name)
  have "relationship_pattern = (is_space, Star) # j1"
    by (simp add: relationship_pattern_def j1_def j2_def j3_def j4_def j5_def j6_def)
  then show "re_match relationship_pattern line =
           map_option (Cons (takeWhile is_space line)) (re_match j1 (dropWhile is_space line))"
    using re_match_Star[OF r1] by simp
  show "re_match j1 s = (if takeWhile is_name_char s = [] then None
           else map_option (Cons (takeWhile is_name_char s)) (re_match j2 (dropWhile is_name_char s)))"
    unfolding j1_def by (rule re_match_Plus[OF r2])
  show "re_match j2 s = map_option (Cons (takeWhile is_space s)) (re_match j3 (dropWhile is_space s))"
    unfolding j2_def by (rule re_match_Star[OF r3])
  show "re_match j3 s = try_counts (re_match j4) s 1 (length (takeWhile is_conn_head s))"
    unfolding j3_def by (simp add: re_match.simps(2))
  show "re_match j4 s = (if takeWhile is_conn_tail s = [] then None
           else map_option (Cons (takeWhile is_conn_tail s)) (re_match j5 (dropWhile is_conn_tail s)))"
    unfolding j4_def by (rule re_match_Plus[OF r5])
  show "re_match j5 s = map_option (Cons (takeWhile is_space s)) (re_match j6 (dropWhile is_space s))"
    unfolding j5_def by (rule re_match_Star[OF r6])
  show "re_match j6 s = (if takeWhile is_name_char s = [] then None
           else Some [takeWhile is_name_char s])"
    unfolding j6_def using re_match_Plus_top[of "[]" is_name_char s] by simp
qed

lemma take_run_all: "m \<le> length (takeWhile P s) \<Longrightarrow> list_all P (take m s)"
proof -
  assume a: "m \<le> length (takeWhile P s)"
  have "take m s = take m (takeWhile P s @ dropWhile P s)" by simp
  also have "\<dots> = take m (takeWhile P s)" using a by (simp del: takeWhile_dropWhile_id)
  finally have "set (take m s) \<subseteq> set (takeWhile P s)" by (simp add: set_take_subset)
  then show ?thesis using takeWhile_all[of P s] by (auto simp: list_all_iff)
qed

lemma take_run_ne: "1 \<le> m \<Longrightarrow> m \<le> length (takeWhile P s) \<Longrightarrow> take m s \<noteq> []"
  using length_takeWhile_le[of P s] by (cases s) auto

lemma rel_invert:
  assumes "re_match relationship_pattern line = Some ps"
  shows "\<exists>ws0 src ws1 h t ws2 tgt rest.
           line = ws0 @ src @ ws1 @ h @ t @ ws2 @ tgt @ rest
           \<and> list_all is_space ws0 \<and> src \<noteq> [] \<and> list_all is_name_char src
           \<and> list_all is_space ws1 \<and> h \<noteq> [] \<and> list_all is_conn_head h
           \<and> t \<noteq> [] \<and> list_all is_conn_tail t \<and> list_all is_space ws2
           \<and> tgt \<noteq> [] \<and> list_all is_name_char tgt
           \<and> (rest = [] \<or> \<not> is_name_char (hd rest))
           \<and> ps = [ws0, src, ws1, h, t, ws2, tgt]"
proof -
  let ?j4 = "[(is_conn_tail, Plus), (is_space, Star), (is_name_char, Plus)]"
  let ?j3 = "(is_conn_head, Plus) # ?j4"
  let ?r0 = "dropWhile is_space line"
  let ?r1 = "dropWhile is_name_char ?r0"
  let ?r2 = "dropWhile is_space ?r1"
  have src: "takeWhile is_name_char ?r0 \<noteq> []"
    using assms by (auto simp: rel_steps(1,2) split: if_splits)
  obtain qs where qs: "re_match ?j3 ?r2 = Some qs"
    and ps: "ps = takeWhile is_space line # takeWhile is_name_char ?r0 # takeWhile is_space ?r1 # qs"
    using assms src by (auto simp: rel_steps(1,2,3))
  from qs obtain m ps' where m: "1 \<le> m" "m \<le> length (takeWhile is_conn_head ?r2)"
    and ps': "re_match ?j4 (drop m ?r2) = Some ps'" and qs': "qs = take m ?r2 # ps'"
    unfolding rel_steps(4) using try_counts_SomeD by blast
  let ?d = "drop m ?r2"
  let ?r3 = "dropWhile is_conn_tail ?d"
  let ?r4 = "dropWhile is_space ?r3"
  have t: "takeWhile is_conn_tail ?d \<noteq> []"
    using ps' by (auto simp: rel_steps(5) split: if_splits)
  have tgt: "takeWhile is_name_char ?r4 \<noteq> []"
    using ps' t by (auto simp: rel_steps(5,6,7) split: if_splits)
  have ps'': "ps' = [takeWhile is_conn_tail ?d, takeWhile is_space ?r3, takeWhile is_name_char ?r4]"
    using ps' t tgt by (auto simp: rel_steps(5,6,7))
  have h: "list_all is_conn_head (take m ?r2)"
    using m(2) by (rule take_run_all)
  have hne: "take m ?r2 \<noteq> []" using m by (rule take_run_ne)
  have "line = takeWhile is_space line @ takeWhile is_name_char ?r0 @ takeWhile is_space ?r1 @ ?r2"
    by simp
  moreover have "?r2 = take m ?r2 @ ?d" by simp
  moreover have "?d = takeWhile is_conn_tail ?d @ takeWhile is_space ?r3
                      @ takeWhile is_name_char ?r4 @ dropWhile is_name_char ?r4"
    by simp
  ultimately have l: "line = takeWhile is_space line @ takeWhile is_name_char ?r0
      @ takeWhile is_space ?r1 @ take m ?r2 @ takeWhile is_conn_tail ?d @ takeWhile is_space ?r3
      @ takeWhile is_name_char ?r4 @ dropWhile is_name_char ?r4"
    by metis
  have mx: "dropWhile is_name_char ?r4 = [] \<or> \<not> is_name_char (hd (dropWhile is_name_char ?r4))"
    using span_split[of is_name_char ?r4] by simp
  have "ps = [takeWhile is_space line, takeWhile is_name_char ?r0, takeWhile is_space ?r1,
              take m ?r2, takeWhile is_conn_tail ?d, takeWhile is_space ?r3,
              takeWhile is_name_char ?r4]"
    using ps qs' ps'' by simp
  with l src h hne t tgt mx show ?thesis
    using takeWhile_all[of is_space] takeWhile_all[of is_name_char] takeWhile_all[of is_conn_tail]
    by blast
qed

lemma hd_append_all:
  "xs \<noteq> [] \<Longrightarrow> list_all P xs \<Longrightarrow> P (hd (xs @ ys))"
  by (cases xs) auto

lemma hd_append_pair:
  "list_all P xs \<Longrightarrow> ys \<noteq> [] \<Longrightarrow> list_all Q ys \<Longrightarrow> P (hd (xs @ ys @ zs)) \<or> Q (hd (xs @ ys @ zs))"
  by (cases xs; cases ys) auto

lemma rel_spans:
  assumes "line = ws0 @ src @ ws1 @ h @ t @ ws2 @ tgt @ rest"
    and "list_all is_space ws0" "src \<noteq> []" "list_all is_name_char src"
    and "list_all is_space ws1" "h \<noteq> []" "list_all is_conn_head h"
    and "t \<noteq> []" "list_all is_conn_tail t" "list_all is_space ws2"
    and "tgt \<noteq> []" "list_all is_name_char tgt"
    and "rest = [] \<or> \<not> is_name_char (hd rest)"
  defines "r2 \<equiv> dropWhile is_space (dropWhile is_name_char (dropWhile is_space line))"
  defines "r3 \<equiv> dropWhile (\<lambda>c. is_conn_head c \<or> is_conn_tail c) r2"
  shows "takeWhile is_space line = ws0"
    and "takeWhile is_name_char (dropWhile is_space line) = src"
    and "takeWhile is_space (dropWhile is_name_char (dropWhile is_space line)) = ws1"
    and "r2 = h @ t @ ws2 @ tgt @ rest"
    and "takeWhile (\<lambda>c. is_conn_head c \<or> is_conn_tail c) r2 = h @ t"
    and "takeWhile is_space r3 = ws2"
    and "takeWhile is_name_char (dropWhile is_space r3) = tgt"
    and "dropWhile is_name_char (dropWhile is_space r3) = rest"
proof -
  let ?conn = "\<lambda>c. is_conn_head c \<or> is_conn_tail c"
  have "\<not> is_space (hd (src @ ws1 @ h @ t @ ws2 @ tgt @ rest))"
    using hd_append_all[OF assms(3,4)] name_not_space by blast
  then have a: "takeWhile is_space line = ws0
      \<and> dropWhile is_space line = src @ ws1 @ h @ t @ ws2 @ tgt @ rest"
    unfolding assms(1) using assms(2) by (intro span_unique) auto
  have "is_space (hd (ws1 @ h @ t @ ws2 @ tgt @ rest)) \<or> is_conn_head (hd (ws1 @ h @ t @ ws2 @ tgt @ rest))"
    using hd_append_pair[OF assms(5,6,7)] by simp
  then have "\<not> is_name_char (hd (ws1 @ h @ t @ ws2 @ tgt @ rest))"
    using space_not_name conn_head_not_name by blast
  then have b: "takeWhile is_name_char (src @ ws1 @ h @ t @ ws2 @ tgt @ rest) = src
      \<and> dropWhile is_name_char (src @ ws1 @ h @ t @ ws2 @ tgt @ rest) = ws1 @ h @ t @ ws2 @ tgt @ rest"
    using assms(4) by (intro span_unique) auto
  have "\<not> is_space (hd (h @ t @ ws2 @ tgt @ rest))"
    using hd_append_all[OF assms(6,7)] conn_head_not_space by blast
  then have c: "takeWhile is_space (ws1 @ h @ t @ ws2 @ tgt @ rest) = ws1
      \<and> dropWhile is_space (ws1 @ h @ t @ ws2 @ tgt @ rest) = h @ t @ ws2 @ tgt @ rest"
    using assms(5) by (intro span_unique) auto
  show r2: "r2 = h @ t @ ws2 @ tgt @ rest"
    unfolding r2_def using a b c by simp
  have "is_space (hd (ws2 @ tgt @ rest)) \<or> is_name_char (hd (ws2 @ tgt @ rest))"
    using hd_append_pair[OF assms(10,11,12)] by simp
  then have nc: "\<not> ?conn (hd (ws2 @ tgt @ rest))"
    using space_not_conn name_not_conn by blast
  have "list_all ?conn (h @ t)"
    using assms(7,9) by (auto simp: list_all_iff)
  then have d: "takeWhile ?conn ((h @ t) @ ws2 @ tgt @ rest) = h @ t
      \<and> dropWhile ?conn ((h @ t) @ ws2 @ tgt @ rest) = ws2 @ tgt @ rest"
    using nc by (intro span_unique) auto
  then have r3: "r3 = ws2 @ tgt @ rest"
    unfolding r3_def r2 by simp
  have "\<not> is_space (hd (tgt @ rest))"
    using hd_append_all[OF assms(11,12)] name_not_space by blast
  then have e: "takeWhile is_space (ws2 @ tgt @ rest) = ws2
      \<and> dropWhile is_space (ws2 @ tgt @ rest) = tgt @ rest"
    using assms(10) by (intro span_unique) auto
  have f: "takeWhile is_name_char (tgt @ rest) = tgt \<and> dropWhile is_name_char (tgt @ rest) = rest"
    using assms(12,13) by (intro span_unique) auto
  show "takeWhile is_space line = ws0" using a by simp
  show "takeWhile is_name_char (dropWhile is_space line) = src" using a b by simp
  show "takeWhile is_space (dropWhile is_name_char (dropWhile is_space line)) = ws1"
    using a b c by simp
  show "takeWhile ?conn r2 = h @ t" unfolding r2 using d by simp
  show "takeWhile is_space r3 = ws2" unfolding r3 using e by simp
  show "takeWhile is_name_char (dropWhile is_space r3) = tgt" unfolding r3 using e f by simp
  show "dropWhile is_name_char (dropWhile is_space r3) = rest" unfolding r3 using e f by simp
qed

lemma rel_match_exists:
  assumes "list_all is_space ws0" "src \<noteq> []" "list_all is_name_char src"
    and "list_all is_space ws1" "h \<noteq> []" "list_all is_conn_head h"
    and "t \<noteq> []" "list_all is_conn_tail t" "list_all is_space ws2"
    and "tgt \<noteq> []" "list_all is_name_char tgt"
    and "rest = [] \<or> \<not> is_name_char (hd rest)"
  shows "\<exists>ps. re_match relationship_pattern (ws0 @ src @ ws1 @ h @ t @ ws2 @ tgt @ rest) = Some ps"
proof -
  let ?j4 = "[(is_conn_tail, Plus), (is_space, Star), (is_name_char, Plus)]"
  let ?line = "ws0 @ src @ ws1 @ h @ t @ ws2 @ tgt @ rest"
  let ?r2 = "h @ t @ ws2 @ tgt @ rest"
  note sp = rel_spans[OF refl assms]
  have "is_space (hd (ws2 @ tgt @ rest)) \<or> is_name_char (hd (ws2 @ tgt @ rest))"
    using hd_append_pair[OF assms(9,10,11)] by simp
  then have "\<not> is_conn_tail (hd (ws2 @ tgt @ rest))"
    using conn_tail_not_space conn_tail_not_name by blast
  then have d: "takeWhile is_conn_tail (t @ ws2 @ tgt @ rest) = t
      \<and> dropWhile is_conn_tail (t @ ws2 @ tgt @ rest) = ws2 @ tgt @ rest"
    using assms(8) by (intro span_unique) auto
  have "\<not> is_space (hd (tgt @ rest))"
    using hd_append_all[OF assms(10,11)] name_not_space by blast
  then have e: "takeWhile is_space (ws2 @ tgt @ rest) = ws2
      \<and> dropWhile is_space (ws2 @ tgt @ rest) = tgt @ rest"
    using assms(9) by (intro span_unique) auto
  have f: "takeWhile is_name_char (tgt @ rest) = tgt"
    using assms(11,12) span_unique[of is_name_char tgt rest] by auto
  have j4: "re_match ?j4 (drop (length h) ?r2) = Some [t, ws2, tgt]"
    using assms(7,10) d e f by (simp add: rel_steps(5,6,7))
  have "takeWhile is_conn_head ?r2 = h @ takeWhile is_conn_head (t @ ws2 @ tgt @ rest)"
    using assms(6) by (rule takeWhile_through)
  then have le: "length h \<le> length (takeWhile is_conn_head ?r2)" by simp
  have "1 \<le> length h" using assms(5) by (simp add: Suc_leI)
  from try_counts_SomeI[of 1 "length h" _ "re_match ?j4" ?r2, OF this le j4]
  obtain qs where "re_match ((is_conn_head, Plus) # ?j4) ?r2 = Some qs"
    unfolding rel_steps(4) by blast
  then show ?thesis
    using sp(1,2,3) sp(4)[symmetric] assms(2) by (simp add: rel_steps(1,2,3))
qed

lemma rel_recognise:
  assumes "list_all is_space ws0" "src \<noteq> []" "list_all is_name_char src"
    and "list_all is_space ws1" "h \<noteq> []" "list_all is_conn_head h"
    and "t \<noteq> []" "list_all is_conn_tail t" "list_all is_space ws2"
    and "tgt \<noteq> []" "list_all is_name_char tgt"
    and "rest = [] \<or> \<not> is_name_char (hd rest)"
  shows "\<exists>ps. re_match relationship_pattern (ws0 @ src @ ws1 @ h @ t @ ws2 @ tgt @ rest) = Some ps
           \<and> pieces ps 1 2 = src \<and> pieces ps 3 5 = h @ t \<and> pieces ps 6 7 = tgt"
proof -
  let ?line = "ws0 @ src @ ws1 @ h @ t @ ws2 @ tgt @ rest"
  obtain ps where ps: "re_match relationship_pattern ?line = Some ps"
    using rel_match_exists[OF assms] by blast
  from rel_invert[OF ps] obtain ws0' src' ws1' h' t' ws2' tgt' rest' where
    l: "?line = ws0' @ src' @ ws1' @ h' @ t' @ ws2' @ tgt' @ rest'"
    and c: "list_all is_space ws0'" "src' \<noteq> []" "list_all is_name_char src'"
      "list_all is_space ws1'" "h' \<noteq> []" "list_all is_conn_head h'"
      "t' \<noteq> []" "list_all is_conn_tail t'" "list_all is_space ws2'"
      "tgt' \<noteq> []" "list_all is_name_char tgt'"
      "rest' = [] \<or> \<not> is_name_char (hd rest')"
    and p: "ps = [ws0', src', ws1', h', t', ws2', tgt']"
    by blast
  note a = rel_spans[OF refl assms]
  note b = rel_spans[OF l c]
  have "src' = src" using a(2) b(2) by simp
  moreover have "h' @ t' = h @ t" using a(5) b(5) by simp
  moreover have "tgt' = tgt" using a(7) b(7) by simp
  ultimately show ?thesis using ps p by (simp add: pieces_def)
qed

section \<open>The scan, line by line\<close>

lemma scan_line_eq:
  "scan_line st line =
     \<lparr>declared_classes = declared_classes st \<union> line_decl line,
      referenced_classes = referenced_classes st \<union> line_refs line,
      processed_lines = processed_lines st @ [line_out line]\<rparr>"
  by (auto simp: scan_line_def line_out_def line_decl_def line_refs_def init_state_def Let_def
      split: option.splits)

lemma foldl_scan_line:
  "foldl scan_line st ls =
     \<lparr>declared_classes = declared_classes st \<union> \<Union> (line_decl ` set ls),
      referenced_classes = referenced_classes st \<union> \<Union> (line_refs ` set ls),
      processed_lines = processed_lines st @ map line_out ls\<rparr>"
proof (induction ls arbitrary: st)
  case Nil
  then show ?case by simp
next
  case (Cons l ls)
  show ?case
    unfolding foldl_Cons Cons.IH by (simp add: scan_line_eq[of st l] Un_assoc)
qed

lemma scan_lines_eq:
  "declared_classes (scan_lines ls) = \<Union> (line_decl ` set ls)"
  "referenced_classes (scan_lines ls) = \<Union> (line_refs ` set ls)"
  "processed_lines (scan_lines ls) = map line_out ls"
  unfolding scan_lines_def foldl_scan_line by (simp_all add: init_state_def)

lemma strip_id: "s \<noteq> [] \<Longrightarrow> \<not> is_space (hd s) \<Longrightarrow> \<not> is_space (last s) \<Longrightarrow> strip s = s"
proof -
  assume a: "s \<noteq> []" "\<not> is_space (hd s)" "\<not> is_space (last s)"
  then have "dropWhile is_space s = s" by (cases s) auto
  moreover have "dropWhile is_space (rev s) = rev s"
    using a by (cases "rev s") (auto simp: hd_rev)
  ultimately show ?thesis by (simp add: strip_def)
qed

lemma strip_all_not_space:
  "s \<noteq> [] \<Longrightarrow> list_all (\<lambda>c. \<not> is_space c) s \<Longrightarrow> strip s = s"
  by (rule strip_id) (auto simp: list_all_iff)

lemma normalize_idem:
  "replace_dots_with_underscores (replace_dots_with_underscores s) = replace_dots_with_underscores s"
  by (simp add: replace_dots_with_underscores_def)

lemma normalize_identifier:
  "is_identifier s \<Longrightarrow> is_identifier (replace_dots_with_underscores s)"
  by (auto simp: is_identifier_def replace_dots_with_underscores_def list_all_iff
      is_name_char_def is_word_def)

lemma normalize_nonempty: "(replace_dots_with_underscores s = []) = (s = [])"
  by (simp add: replace_dots_with_underscores_def)

lemma identifier_strip: "is_identifier s \<Longrightarrow> strip s = s"
  unfolding is_identifier_def
  by (intro strip_all_not_space) (auto simp: list_all_iff dest: name_not_space)

lemma connector_strip:
  assumes "h \<noteq> []" "list_all is_conn_head h" "t \<noteq> []" "list_all is_conn_tail t"
  shows "strip (h @ t) = h @ t"
  using assms
  by (intro strip_all_not_space)
     (auto simp: list_all_iff dest: conn_head_not_space conn_tail_not_space)

lemma line_decl_case:
  assumes "list_all is_space ws0" "ws1 \<noteq> []" "list_all is_space ws1" "nm \<noteq> []"
    "list_all is_name_char nm" "rest = [] \<or> \<not> is_name_char (hd rest)"
  shows "line_out (ws0 @ ''class'' @ ws1 @ nm @ rest)
           = ws0 @ ''class'' @ ws1 @ replace_dots_with_underscores nm
               @ takeWhile (\<lambda>c. c \<noteq> CHR ''}'') rest"
    and "line_decl (ws0 @ ''class'' @ ws1 @ nm @ rest) = {replace_dots_with_underscores nm}"
    and "line_refs (ws0 @ ''class'' @ ws1 @ nm @ rest) = {}"
proof -
  obtain ps where ps: "re_match class_declaration_pattern (ws0 @ ''class'' @ ws1 @ nm @ rest) = Some ps"
    and p: "pieces ps 0 7 = ws0 @ ''class'' @ ws1" "pieces ps 7 8 = nm"
      "pieces ps 8 11 = takeWhile (\<lambda>c. c \<noteq> CHR ''}'') rest"
    using decl_recognise[OF assms] by blast
  have s: "strip nm = nm"
    using assms(4,5) by (intro identifier_strip) (simp add: is_identifier_def)
  show "line_out (ws0 @ ''class'' @ ws1 @ nm @ rest)
           = ws0 @ ''class'' @ ws1 @ replace_dots_with_underscores nm
               @ takeWhile (\<lambda>c. c \<noteq> CHR ''}'') rest"
    unfolding line_out_def scan_line_def ps by (simp add: p s init_state_def Let_def)
  show "line_decl (ws0 @ ''class'' @ ws1 @ nm @ rest) = {replace_dots_with_underscores nm}"
    unfolding line_decl_def scan_line_def ps by (simp add: p s init_state_def Let_def)
  show "line_refs (ws0 @ ''class'' @ ws1 @ nm @ rest) = {}"
    unfolding line_refs_def scan_line_def ps by (simp add: init_state_def Let_def)
qed

lemma line_rel_case:
  assumes "re_match class_declaration_pattern (ws0 @ src @ ws1 @ h @ t @ ws2 @ tgt @ rest) = None"
    and "list_all is_space ws0" "src \<noteq> []" "list_all is_name_char src"
    and "list_all is_space ws1" "h \<noteq> []" "list_all is_conn_head h"
    and "t \<noteq> []" "list_all is_conn_tail t" "list_all is_space ws2"
    and "tgt \<noteq> []" "list_all is_name_char tgt"
    and "rest = [] \<or> \<not> is_name_char (hd rest)"
  shows "line_out (ws0 @ src @ ws1 @ h @ t @ ws2 @ tgt @ rest)
           = ws0 @ replace_dots_with_underscores src @ '' '' @ h @ t @ '' ''
               @ replace_dots_with_underscores tgt"
    and "line_decl (ws0 @ src @ ws1 @ h @ t @ ws2 @ tgt @ rest) = {}"
    and "line_refs (ws0 @ src @ ws1 @ h @ t @ ws2 @ tgt @ rest)
           = {replace_dots_with_underscores src, replace_dots_with_underscores tgt}"
proof -
  let ?line = "ws0 @ src @ ws1 @ h @ t @ ws2 @ tgt @ rest"
  obtain ps where ps: "re_match relationship_pattern ?line = Some ps"
    and p: "pieces ps 1 2 = src" "pieces ps 3 5 = h @ t" "pieces ps 6 7 = tgt"
    using rel_recognise[OF assms(2-)] by blast
  have s: "strip src = src" "strip tgt = tgt"
    using assms by (simp_all add: identifier_strip is_identifier_def)
  have c: "strip (h @ t) = h @ t"
    using assms(6,7,8,9) by (rule connector_strip)
  have p': "pieces ps (Suc 0) 2 = src" using p(1) by simp
  have q: "pieces [ws0] 0 (Suc 0) = ws0" by (simp add: pieces_def)
  have l: "re_match leading_spaces_pattern ?line = Some [ws0]"
    unfolding leading_spaces_pattern_def re_match_Star_last
    using rel_spans(1)[OF refl assms(2-)] by simp
  show "line_out ?line = ws0 @ replace_dots_with_underscores src @ '' '' @ h @ t @ '' ''
               @ replace_dots_with_underscores tgt"
    unfolding line_out_def scan_line_def ps assms(1) l
    by (simp add: p p' q s c init_state_def Let_def)
  show "line_decl ?line = {}"
    unfolding line_decl_def scan_line_def ps assms(1) by (simp add: init_state_def Let_def)
  show "line_refs ?line = {replace_dots_with_underscores src, replace_dots_with_underscores tgt}"
    unfolding line_refs_def scan_line_def ps assms(1) l
    by (auto simp add: p p' q s c init_state_def Let_def)
qed

lemma line_pass_case:
  assumes "re_match class_declaration_pattern line = None"
    and "re_match relationship_pattern line = None"
  shows "line_out line = line" and "line_decl line = {}" and "line_refs line = {}"
  unfolding line_out_def line_decl_def line_refs_def scan_line_def assms
  by (simp_all add: init_state_def)

lemma line_cases [case_names decl rel pass]:
  obtains
    (decl) ws0 ws1 nm rest where
      "line = ws0 @ ''class'' @ ws1 @ nm @ rest" "list_all is_space ws0" "ws1 \<noteq> []"
      "list_all is_space ws1" "nm \<noteq> []" "list_all is_name_char nm"
      "rest = [] \<or> \<not> is_name_char (hd rest)"
  | (rel) ws0 src ws1 h t ws2 tgt rest where
      "re_match class_declaration_pattern line = None"
      "line = ws0 @ src @ ws1 @ h @ t @ ws2 @ tgt @ rest"
      "list_all is_space ws0" "src \<noteq> []" "list_all is_name_char src"
      "list_all is_space ws1" "h \<noteq> []" "list_all is_conn_head h"
      "t \<noteq> []" "list_all is_conn_tail t" "list_all is_space ws2"
      "tgt \<noteq> []" "list_all is_name_char tgt"
      "rest = [] \<or> \<not> is_name_char (hd rest)"
  | (pass) "re_match class_declaration_pattern line = None"
      "re_match relationship_pattern line = None"
proof (cases "re_match class_declaration_pattern line")
  case (Some ps)
  from decl_invert[OF this] show ?thesis using decl by blast
next
  case None
  show ?thesis
  proof (cases "re_match relationship_pattern line")
    case (Some ps)
    from rel_invert[OF this] show ?thesis using rel[OF None] by blast
  next
    case n: None
    show ?thesis using pass[OF None n] .
  qed
qed

lemma hd_takeWhile_stop:
  "rest = [] \<or> \<not> Q (hd rest) \<Longrightarrow> takeWhile P rest = [] \<or> \<not> Q (hd (takeWhile P rest))"
  by (cases rest) auto

text \<open>
  No line has both shapes: after the keyword a declaration has whitespace and then a
  name, a relationship has a connector after its first name.
\<close>

lemma rel_not_decl:
  assumes "list_all is_space ws0" "src \<noteq> []" "list_all is_name_char src"
    "list_all is_space ws1" "h \<noteq> []" "list_all is_conn_head h"
  shows "re_match class_declaration_pattern (ws0 @ src @ ws1 @ h @ x) = None"
proof (rule ccontr)
  assume "re_match class_declaration_pattern (ws0 @ src @ ws1 @ h @ x) \<noteq> None"
  then obtain ps where "re_match class_declaration_pattern (ws0 @ src @ ws1 @ h @ x) = Some ps"
    by blast
  from decl_invert[OF this] obtain a b n r where
    l: "ws0 @ src @ ws1 @ h @ x = a @ ''class'' @ b @ n @ r"
    and c: "list_all is_space a" "b \<noteq> []" "list_all is_space b" "n \<noteq> []" "list_all is_name_char n"
    by blast
  have "\<not> is_space (hd (src @ ws1 @ h @ x))"
    using hd_append_all[OF assms(2,3)] name_not_space by blast
  then have "dropWhile is_space (ws0 @ src @ ws1 @ h @ x) = src @ ws1 @ h @ x"
    using assms(1) span_unique[of is_space ws0 "src @ ws1 @ h @ x"] by simp
  moreover have "dropWhile is_space (a @ ''class'' @ b @ n @ r) = ''class'' @ b @ n @ r"
    using c(1) span_unique[of is_space a "''class'' @ b @ n @ r"] by (simp add: is_space_def)
  ultimately have e1: "src @ ws1 @ h @ x = ''class'' @ b @ n @ r"
    using l by metis
  have "is_space (hd (ws1 @ h @ x)) \<or> is_conn_head (hd (ws1 @ h @ x))"
    using hd_append_pair[OF assms(4,5,6)] by simp
  then have "\<not> is_name_char (hd (ws1 @ h @ x))"
    using space_not_name conn_head_not_name by blast
  then have "dropWhile is_name_char (src @ ws1 @ h @ x) = ws1 @ h @ x"
    using assms(3) span_unique[of is_name_char src "ws1 @ h @ x"] by simp
  moreover have "is_space (hd (b @ n @ r))"
    using hd_append_all[OF c(2,3)] by blast
  then have "\<not> is_name_char (hd (b @ n @ r))" by (rule space_not_name)
  then have "dropWhile is_name_char (''class'' @ b @ n @ r) = b @ n @ r"
    using span_unique[of is_name_char "''class''" "b @ n @ r"]
    by (simp add: is_name_char_def is_word_def)
  ultimately have e2: "ws1 @ h @ x = b @ n @ r"
    using e1 by metis
  have "\<not> is_space (hd (h @ x))"
    using hd_append_all[OF assms(5,6)] conn_head_not_space by blast
  then have "dropWhile is_space (ws1 @ h @ x) = h @ x"
    using assms(4) span_unique[of is_space ws1 "h @ x"] by simp
  moreover have "\<not> is_space (hd (n @ r))"
    using hd_append_all[OF c(4,5)] name_not_space by blast
  then have "dropWhile is_space (b @ n @ r) = n @ r"
    using c(3) span_unique[of is_space b "n @ r"] by simp
  ultimately have "h @ x = n @ r"
    using e2 by metis
  then have "hd (h @ x) = hd (n @ r)" by simp
  moreover have "is_conn_head (hd (h @ x))" using hd_append_all[OF assms(5,6)] .
  moreover have "is_name_char (hd (n @ r))" using hd_append_all[OF c(4,5)] .
  ultimately show False using conn_head_not_name by metis
qed

lemma rel_out_not_decl:
  assumes "list_all is_space ws0" "src \<noteq> []" "list_all is_name_char src"
    "h \<noteq> []" "list_all is_conn_head h"
  shows "re_match class_declaration_pattern (ws0 @ src @ '' '' @ h @ x) = None"
proof -
  have "list_all is_space '' ''" by simp
  from rel_not_decl[OF assms(1,2,3) this assms(4,5)] show ?thesis .
qed

lemma line_out_fixed:
  "line_out (line_out l) = line_out l \<and> line_decl (line_out l) = line_decl l
   \<and> line_refs (line_out l) = line_refs l"
proof (cases l rule: line_cases)
  case (decl ws0 ws1 nm rest)
  let ?nm = "replace_dots_with_underscores nm"
  let ?rest = "takeWhile (\<lambda>c. c \<noteq> CHR ''}'') rest"
  note a = line_decl_case[OF decl(2-7)]
  have i: "is_identifier ?nm"
    using decl(5,6) by (intro normalize_identifier) (simp add: is_identifier_def)
  have m: "?rest = [] \<or> \<not> is_name_char (hd ?rest)"
    using decl(7) by (rule hd_takeWhile_stop)
  note b = line_decl_case[OF decl(2,3,4) i[unfolded is_identifier_def, THEN conjunct1]
      i[unfolded is_identifier_def, THEN conjunct2] m]
  show ?thesis
    unfolding decl(1) a b by (simp add: normalize_idem)
next
  case (rel ws0 src ws1 h t ws2 tgt rest)
  let ?src = "replace_dots_with_underscores src"
  let ?tgt = "replace_dots_with_underscores tgt"
  note a = line_rel_case[OF rel(1)[unfolded rel(2)] rel(3-)]
  have s: "is_identifier ?src"
    using rel(4,5) by (intro normalize_identifier) (simp add: is_identifier_def)
  have g: "is_identifier ?tgt"
    using rel(12,13) by (intro normalize_identifier) (simp add: is_identifier_def)
  have n: "re_match class_declaration_pattern
             (ws0 @ ?src @ '' '' @ h @ t @ '' '' @ ?tgt @ []) = None"
    using rel_out_not_decl[OF rel(3) s[unfolded is_identifier_def, THEN conjunct1]
      s[unfolded is_identifier_def, THEN conjunct2] rel(7,8)] by simp
  have sp: "list_all is_space '' ''" by simp
  have e: "[] = [] \<or> \<not> is_name_char (hd [])" by simp
  note b = line_rel_case[OF n rel(3) s[unfolded is_identifier_def, THEN conjunct1]
      s[unfolded is_identifier_def, THEN conjunct2] sp rel(7,8,9,10) sp
      g[unfolded is_identifier_def, THEN conjunct1] g[unfolded is_identifier_def, THEN conjunct2] e]
  show ?thesis
    unfolding rel(2) a using b by (simp add: normalize_idem)
next
  case pass
  show ?thesis
    using line_pass_case[OF pass] by simp
qed

lemma line_synth:
  assumes "is_identifier x"
  shows "line_out (''class '' @ x) = ''class '' @ replace_dots_with_underscores x"
    and "line_decl (''class '' @ x) = {replace_dots_with_underscores x}"
    and "line_refs (''class '' @ x) = {}"
proof -
  have a: "list_all is_space []" "'' '' \<noteq> []" "list_all is_space '' ''"
    "[] = [] \<or> \<not> is_name_char (hd [])" by simp_all
  note b = line_decl_case[OF a(1,2,3) assms[unfolded is_identifier_def, THEN conjunct1]
      assms[unfolded is_identifier_def, THEN conjunct2] a(4)]
  show "line_out (''class '' @ x) = ''class '' @ replace_dots_with_underscores x"
    and "line_decl (''class '' @ x) = {replace_dots_with_underscores x}"
    and "line_refs (''class '' @ x) = {}"
    using b by simp_all
qed

lemma line_blank: "line_out [] = []" "line_decl [] = {}" "line_refs [] = {}"
proof -
  have "re_match class_declaration_pattern [] = None" by (simp add: decl_steps)
  moreover have "re_match relationship_pattern [] = None" by (simp add: rel_steps)
  ultimately show "line_out [] = []" "line_decl [] = {}" "line_refs [] = {}"
    using line_pass_case[of "[]"] by simp_all
qed

lemma line_refs_identifiers:
  "x \<in> line_refs l \<Longrightarrow> is_identifier x \<and> replace_dots_with_underscores x = x"
proof (cases l rule: line_cases)
  case (decl ws0 ws1 nm rest)
  assume "x \<in> line_refs l"
  then show ?thesis using line_decl_case(3)[OF decl(2-7)] decl(1) by simp
next
  case (rel ws0 src ws1 h t ws2 tgt rest)
  assume "x \<in> line_refs l"
  then have "x = replace_dots_with_underscores src \<or> x = replace_dots_with_underscores tgt"
    using line_rel_case(3)[OF rel(1)[unfolded rel(2)] rel(3-)] rel(2) by simp
  moreover have "is_identifier src" "is_identifier tgt"
    using rel by (simp_all add: is_identifier_def)
  ultimately show ?thesis
    using normalize_identifier normalize_idem by auto
next
  case pass
  assume "x \<in> line_refs l"
  then show ?thesis using line_pass_case(3)[OF pass] by simp
qed

lemma line_refs_finite: "finite (line_refs l)"
proof (cases l rule: line_cases)
  case (decl ws0 ws1 nm rest)
  then show ?thesis using line_decl_case(3)[OF decl(2-7)] by simp
next
  case (rel ws0 src ws1 h t ws2 tgt rest)
  then show ?thesis using line_rel_case(3)[OF rel(1)[unfolded rel(2)] rel(3-)] by simp
next
  case pass
  then show ?thesis using line_pass_case(3)[OF pass] by simp
qed

section \<open>The closing pass\<close>

lemma py_index_nat: "i < length xs \<Longrightarrow> py_index xs (int i) = Inr (xs ! i)"
  by (simp add: py_index_def)

lemma int_pred: "0 < (n::nat) \<Longrightarrow> int n - 1 = int (n - 1)"
  by simp

lemma find_closing_none:
  "n \<le> length ls \<Longrightarrow> (\<forall>j<n. strip (ls ! j) \<noteq> ''```'') \<Longrightarrow> find_closing ls n = Inr None"
proof (induction n)
  case 0
  then show ?case by simp
next
  case (Suc n)
  then have "py_index ls (int n) = Inr (ls ! n)" by (intro py_index_nat) simp
  moreover have "strip (ls ! n) \<noteq> ''```''" using Suc.prems by simp
  moreover have "find_closing ls n = Inr None" using Suc by simp
  ultimately show ?case by simp
qed

lemma find_closing_some:
  "i < n \<Longrightarrow> n \<le> length ls \<Longrightarrow> strip (ls ! i) = ''```'' \<Longrightarrow>
   (\<forall>j. i < j \<and> j < n \<longrightarrow> strip (ls ! j) \<noteq> ''```'') \<Longrightarrow>
   find_closing ls n = Inr (Some (int i))"
proof (induction n)
  case 0
  then show ?case by simp
next
  case (Suc n)
  have idx: "py_index ls (int n) = Inr (ls ! n)" using Suc.prems by (intro py_index_nat) simp
  show ?case
  proof (cases "i = n")
    case True
    then show ?thesis using idx Suc.prems by simp
  next
    case False
    then have "i < n" using Suc.prems by simp
    moreover have "strip (ls ! n) \<noteq> ''```''" using Suc.prems \<open>i < n\<close> by simp
    moreover have "find_closing ls n = Inr (Some (int i))" using Suc \<open>i < n\<close> by simp
    ultimately show ?thesis using idx by simp
  qed
qed

lemma ecd_no_missing:
  "missing_of ls = {} \<Longrightarrow> ensure_classes_declared ls = Inr (map line_out ls)"
  by (simp add: ensure_classes_declared_def missing_of_def scan_lines_eq Let_def)


lemma ecd_unfold:
  "ensure_classes_declared ls =
     (if missing_of ls = {} then Inr (map line_out ls)
      else
        case find_closing (map line_out ls) (length (map line_out ls)) of
          Inl e \<Rightarrow> Inl e
        | Inr found \<Rightarrow>
            (let (lines1, closing_code_block_index) =
                   (case found of
                      None \<Rightarrow> (map line_out ls @ [[]], int (length (map line_out ls @ [[]])))
                    | Some i \<Rightarrow> (map line_out ls, i))
             in case (if closing_code_block_index > 0
                      then (case py_index lines1 (closing_code_block_index - 1) of
                              Inl e \<Rightarrow> Inl e
                            | Inr l \<Rightarrow> Inr (strip l \<noteq> []))
                      else Inr False) of
                  Inl e \<Rightarrow> Inl e
                | Inr separate \<Rightarrow>
                    Inr (slice_to lines1 closing_code_block_index
                         @ (if separate then [[]] else []) @ synthesized (missing_of ls)
                         @ slice_from lines1 closing_code_block_index)))"
  unfolding ensure_classes_declared_def missing_of_def synthesized_def scan_lines_eq(3) Let_def
  by (rule refl)

lemma ecd_no_fence:
  assumes "missing_of ls \<noteq> {}" "\<forall>l \<in> set ls. strip (line_out l) \<noteq> ''```''"
  shows "ensure_classes_declared ls = Inr (map line_out ls @ [[]] @ synthesized (missing_of ls))"
proof -
  let ?P = "map line_out ls"
  have fc: "find_closing ?P (length ?P) = Inr None"
    using assms(2) by (intro find_closing_none) auto
  have "int (length (?P @ [[]])) - 1 = int (length ?P)" by simp
  moreover have "py_index (?P @ [[]]) (int (length ?P)) = Inr []"
    using py_index_nat[of "length ?P" "?P @ [[]]"] by (simp add: nth_append)
  ultimately have ix: "py_index (?P @ [[]]) (int (length (?P @ [[]])) - 1) = Inr []"
    by simp
  have pos: "int (length (?P @ [[]])) > 0" by simp
  have st: "strip [] = []" by (simp add: strip_def)
  have sl: "slice_to (?P @ [[]]) (int (length (?P @ [[]]))) = ?P @ [[]]"
    "slice_from (?P @ [[]]) (int (length (?P @ [[]]))) = []"
    by (simp_all add: slice_to_def slice_from_def py_bound_def)
  show ?thesis
    unfolding ecd_unfold fc using assms(1)
    by (simp only: if_False sum.case option.case prod.case Let_def pos if_True ix st sl
        simp_thms append_Nil append_Nil2 append_assoc)
qed

lemma ecd_fence:
  assumes "missing_of ls \<noteq> {}" "map line_out ls = pre @ f # post" "strip f = ''```''"
    "\<forall>l \<in> set post. strip l \<noteq> ''```''"
  shows "ensure_classes_declared ls =
           Inr (pre @ (if pre \<noteq> [] \<and> strip (last pre) \<noteq> [] then [[]] else [])
                @ synthesized (missing_of ls) @ f # post)"
proof -
  let ?P = "map line_out ls"
  let ?i = "length pre"
  have len: "length ?P = Suc (?i + length post)" unfolding assms(2) by simp
  have "\<forall>j. ?i < j \<and> j < length ?P \<longrightarrow> strip (?P ! j) \<noteq> ''```''"
    unfolding assms(2) using assms(4) by (auto simp: nth_append nth_Cons split: nat.splits)
  moreover have "strip (?P ! ?i) = ''```''" unfolding assms(2) using assms(3) by simp
  ultimately have fc: "find_closing ?P (length ?P) = Inr (Some (int ?i))"
    using len by (intro find_closing_some) auto
  have sl: "slice_to ?P (int ?i) = pre" "slice_from ?P (int ?i) = f # post"
    unfolding slice_to_def slice_from_def py_bound_def assms(2) by simp_all
  have sep: "0 < ?i \<Longrightarrow> py_index ?P (int ?i - 1) = Inr (last pre)"
  proof -
    assume p: "0 < ?i"
    then have "int ?i - 1 = int (?i - 1)" by (rule int_pred)
    moreover have "py_index ?P (int (?i - 1)) = Inr (?P ! (?i - 1))"
      using p len by (intro py_index_nat) simp
    moreover have "?P ! (?i - 1) = last pre"
      unfolding assms(2) using p by (simp add: nth_append last_conv_nth)
    ultimately show ?thesis by (simp only:)
  qed
  show ?thesis
  proof (cases "pre = []")
    case True
    then have z: "\<not> int ?i > 0" by simp
    have rhs: "(if pre \<noteq> [] \<and> strip (last pre) \<noteq> [] then [[]] else []) = []"
      using True by simp
    show ?thesis
      unfolding ecd_unfold fc rhs using assms(1)
      by (simp only: if_False sum.case option.case prod.case Let_def z sl simp_thms
          append_Nil append_Nil2 append_assoc)
  next
    case False
    then have pos: "int ?i > 0" by simp
    have ix: "py_index ?P (int ?i - 1) = Inr (last pre)" using sep False by simp
    have rhs: "(if pre \<noteq> [] \<and> strip (last pre) \<noteq> [] then [[]] else [])
               = (if strip (last pre) \<noteq> [] then [[]] else [])"
      using False by simp
    show ?thesis
      unfolding ecd_unfold fc rhs using assms(1)
      by (simp only: if_False if_True sum.case option.case prod.case Let_def pos ix sl simp_thms
          append_Nil append_Nil2 append_assoc)
  qed
qed

lemma referenced_finite: "finite (referenced_classes (scan_lines ls))"
  unfolding scan_lines_eq using line_refs_finite by blast

lemma missing_finite: "finite (missing_of ls)"
  unfolding missing_of_def using referenced_finite by blast

lemma missing_identifiers:
  "x \<in> missing_of ls \<Longrightarrow> is_identifier x \<and> replace_dots_with_underscores x = x"
  unfolding missing_of_def scan_lines_eq using line_refs_identifiers by blast

lemma synthesized_set:
  "finite m \<Longrightarrow> set (synthesized m) = (\<lambda>c. ''class '' @ c) ` m"
  by (simp add: synthesized_def)

lemma synthesized_empty: "synthesized {} = []"
  by (simp add: synthesized_def)

lemma ecd_shape:
  "\<exists>pre post sep. map line_out ls = pre @ post \<and> (sep = [] \<or> sep = [[]])
     \<and> ensure_classes_declared ls = Inr (pre @ sep @ synthesized (missing_of ls) @ post)"
proof (cases "missing_of ls = {}")
  case True
  have "map line_out ls = map line_out ls @ []" by simp
  moreover have "ensure_classes_declared ls
      = Inr (map line_out ls @ [] @ synthesized (missing_of ls) @ [])"
    using ecd_no_missing[OF True] True by (simp add: synthesized_empty)
  ultimately show ?thesis by blast
next
  case False
  show ?thesis
  proof (cases "\<exists>l \<in> set (map line_out ls). strip l = ''```''")
    case True
    from split_list_last_prop[OF this] obtain pre f post where
      p: "map line_out ls = pre @ f # post" "strip f = ''```''"
      "\<forall>l \<in> set post. strip l \<noteq> ''```''"
      by blast
    have "map line_out ls = pre @ (f # post)" using p(1) by simp
    moreover have "(if pre \<noteq> [] \<and> strip (last pre) \<noteq> [] then [[]] else []) = []
        \<or> (if pre \<noteq> [] \<and> strip (last pre) \<noteq> [] then [[]] else []) = [[]]"
      by simp
    ultimately show ?thesis using ecd_fence[OF False p] by blast
  next
    case n: False
    then have "\<forall>l \<in> set ls. strip (line_out l) \<noteq> ''```''" by simp
    from ecd_no_fence[OF False this]
    have "ensure_classes_declared ls = Inr (map line_out ls @ [[]] @ synthesized (missing_of ls) @ [])"
      by simp
    moreover have "map line_out ls = map line_out ls @ []" by simp
    ultimately show ?thesis by blast
  qed
qed

lemma closed_output:
  assumes "map line_out ls = pre @ post" "sep = [] \<or> sep = [[]]"
  defines "out \<equiv> pre @ sep @ synthesized (missing_of ls) @ post"
  shows "map line_out out = out"
    and "declared_classes (scan_lines out) = declared_classes (scan_lines ls) \<union> missing_of ls"
    and "referenced_classes (scan_lines out) = referenced_classes (scan_lines ls)"
proof -
  let ?syn = "synthesized (missing_of ls)"
  have sset: "set ?syn = (\<lambda>c. ''class '' @ c) ` missing_of ls"
    using missing_finite by (rule synthesized_set)
  have syn: "l \<in> set ?syn \<Longrightarrow> line_out l = l \<and> (\<exists>x \<in> missing_of ls. l = ''class '' @ x \<and> line_decl l = {x})
      \<and> line_refs l = {}" for l
  proof -
    assume "l \<in> set ?syn"
    then obtain x where x: "x \<in> missing_of ls" "l = ''class '' @ x" using sset by auto
    from missing_identifiers[OF x(1)] have i: "is_identifier x" "replace_dots_with_underscores x = x"
      by simp_all
    show ?thesis using line_synth[OF i(1)] i(2) x by auto
  qed
  have old: "l \<in> set pre \<union> set post \<Longrightarrow> line_out l = l" for l
  proof -
    assume "l \<in> set pre \<union> set post"
    then have "l \<in> set (map line_out ls)" unfolding assms(1) by simp
    then show ?thesis using line_out_fixed by auto
  qed
  have sp: "l \<in> set sep \<Longrightarrow> l = []" for l using assms(2) by auto
  have "\<forall>l \<in> set out. line_out l = l"
    unfolding out_def using syn old sp line_blank(1) by auto
  then show "map line_out out = out" by (simp add: map_idI)
  have pp: "set pre \<union> set post = line_out ` set ls"
    using arg_cong[OF assms(1), of set] by auto
  have so: "set out = line_out ` set ls \<union> set sep \<union> set ?syn"
    unfolding out_def using pp by auto
  have d1: "\<Union> (line_decl ` line_out ` set ls) = \<Union> (line_decl ` set ls)"
    using line_out_fixed by auto
  have d2: "\<Union> (line_decl ` set sep) = {}" using sp line_blank(2) by auto
  have d3: "\<Union> (line_decl ` set ?syn) = missing_of ls"
  proof
    show "\<Union> (line_decl ` set ?syn) \<subseteq> missing_of ls" using syn by fastforce
    show "missing_of ls \<subseteq> \<Union> (line_decl ` set ?syn)"
    proof
      fix x assume x: "x \<in> missing_of ls"
      then have m: "''class '' @ x \<in> set ?syn" using sset by blast
      from missing_identifiers[OF x] have "line_decl (''class '' @ x) = {x}"
        using line_synth(2)[of x] by simp
      then show "x \<in> \<Union> (line_decl ` set ?syn)" using m by blast
    qed
  qed
  show "declared_classes (scan_lines out) = declared_classes (scan_lines ls) \<union> missing_of ls"
    unfolding scan_lines_eq so image_Un Union_Un_distrib d1 d2 d3 by simp
  have r1: "\<Union> (line_refs ` line_out ` set ls) = \<Union> (line_refs ` set ls)"
    using line_out_fixed by auto
  have r2: "\<Union> (line_refs ` set sep) = {}" using sp line_blank(3) by auto
  have r3: "\<Union> (line_refs ` set ?syn) = {}" using syn by auto
  show "referenced_classes (scan_lines out) = referenced_classes (scan_lines ls)"
    unfolding scan_lines_eq so image_Un Union_Un_distrib r1 r2 r3 by simp
qed

section \<open>The sanitizer: claims C4, C5 and C6\<close>

lemma signature_shape_iff:
  "signature_shape line \<longleftrightarrow> re_match method_signature_pattern line \<noteq> None"
proof
  assume "signature_shape line"
  then show "re_match method_signature_pattern line \<noteq> None"
    unfolding signature_shape_def using sig_recognise by fastforce
next
  assume "re_match method_signature_pattern line \<noteq> None"
  then obtain ps where "re_match method_signature_pattern line = Some ps" by blast
  from sig_invert[OF this] show "signature_shape line"
    unfolding signature_shape_def by blast
qed

text \<open>
  What the function returns on a line of the signature shape: the signature with its
  braces escaped, then the suffix up to its first line feed.
\<close>

lemma signature_rewrite:
  assumes "list_all is_space ws" "sg = CHR ''-'' \<or> sg = CHR ''+''" "w \<noteq> []" "list_all is_word w"
    "list_all (\<lambda>c. c \<noteq> CHR '')'') p"
  shows "replace_problematic_characters_in_signature (ws @ sg # w @ ''('' @ p @ '')'' @ rest)
         = pattern_sub (ws @ sg # w @ ''('' @ p @ '')'') @ takeWhile is_dot rest"
  unfolding replace_problematic_characters_in_signature_def sig_recognise[OF assms]
  by (simp add: pieces_def)

lemma signature_rewrite_one_line:
  assumes "list_all is_space ws" "sg = CHR ''-'' \<or> sg = CHR ''+''" "w \<noteq> []" "list_all is_word w"
    "list_all (\<lambda>c. c \<noteq> CHR '')'') p" "CHR 0x0A \<notin> set rest"
  shows "replace_problematic_characters_in_signature (ws @ sg # w @ ''('' @ p @ '')'' @ rest)
         = pattern_sub (ws @ sg # w @ ''('' @ p @ '')'') @ rest"
proof -
  have "takeWhile is_dot rest = rest"
    using assms(6) by (auto simp: is_dot_def takeWhile_eq_all_conv)
  then show ?thesis
    using signature_rewrite[OF assms(1-5), of rest] by simp
qed

lemma signature_example:
  "replace_problematic_characters_in_signature
     ''  +initialize(config: { url: string; port: number; }): void''
   = ''  +initialize(config: &#123; url: string; port: number; &#125;): void''"
  by code_simp

text \<open>
  Claim C4: on a line of the method-signature shape the braces of the signature are
  escaped and the suffix is returned byte for byte. The code does not do this on the
  line \<^verbatim>\<open>+f()\<close> followed by a line feed, which has the shape: the suffix is the line
  feed, and the result ends at the closing parenthesis.
\<close>

theorem signature_line_feed_dropped:
  "signature_shape (''+f()'' @ [CHR 0x0A])
   \<and> replace_problematic_characters_in_signature (''+f()'' @ [CHR 0x0A]) = ''+f()''"
  unfolding signature_shape_iff by code_simp

text \<open>
  Claim C5: a line that does not have the method-signature shape is returned unchanged,
  character for character.
\<close>

theorem unmatched_line_unchanged:
  "\<not> signature_shape line \<Longrightarrow> replace_problematic_characters_in_signature line = line"
  by (simp add: signature_shape_iff replace_problematic_characters_in_signature_def)

theorem unmatched_line_unchanged_witness:
  "\<not> signature_shape ''class MyClass {''
   \<and> replace_problematic_characters_in_signature ''class MyClass {'' = ''class MyClass {''"
proof -
  have h: "\<not> signature_shape ''class MyClass {''"
    unfolding signature_shape_iff by code_simp
  show ?thesis using h unmatched_line_unchanged[OF h] by simp
qed

text \<open>
  Claim C6: normalization keeps the length, turns every dot into an underscore and
  keeps every other character; it is the identity on an identifier without dots, and
  idempotent.
\<close>

theorem replace_dots_with_underscores_spec:
  "length (replace_dots_with_underscores s) = length s
   \<and> (\<forall>i < length s. replace_dots_with_underscores s ! i
                         = (if s ! i = CHR ''.'' then CHR ''_'' else s ! i))
   \<and> (CHR ''.'' \<notin> set s \<longrightarrow> replace_dots_with_underscores s = s)
   \<and> replace_dots_with_underscores (replace_dots_with_underscores s)
       = replace_dots_with_underscores s"
proof -
  have "CHR ''.'' \<notin> set s \<Longrightarrow> map (\<lambda>c. if c = CHR ''.'' then CHR ''_'' else c) s = s"
    by (induction s) auto
  then show ?thesis
    by (auto simp: replace_dots_with_underscores_def)
qed

theorem replace_dots_with_underscores_spec_witness:
  "replace_dots_with_underscores ''vscode.ExtensionContext'' = ''vscode_ExtensionContext''
   \<and> CHR ''.'' \<notin> set ''Extension''
   \<and> replace_dots_with_underscores ''Extension'' = ''Extension''"
proof -
  have h: "CHR ''.'' \<notin> set ''Extension''" by simp
  have "replace_dots_with_underscores ''vscode.ExtensionContext'' = ''vscode_ExtensionContext''"
    by code_simp
  then show ?thesis
    using h replace_dots_with_underscores_spec[of "''Extension''"] by blast
qed

section \<open>The closing pass: claims C1, C2, C3, C7, C8, C9 and C10\<close>

text \<open>
  The shapes of the specification are the matches of the patterns of the source.
\<close>

lemma maximal_run:
  "nm \<noteq> [] \<Longrightarrow> list_all P nm \<Longrightarrow>
   \<exists>nm' rest'. nm @ rest = nm' @ rest' \<and> nm' \<noteq> [] \<and> list_all P nm'
      \<and> (rest' = [] \<or> \<not> P (hd rest'))"
proof -
  assume a: "nm \<noteq> []" "list_all P nm"
  let ?n = "takeWhile P (nm @ rest)" and ?r = "dropWhile P (nm @ rest)"
  have "?n = nm @ takeWhile P rest" using a(2) by (rule takeWhile_through)
  then have "?n \<noteq> []" using a(1) by simp
  moreover have "nm @ rest = ?n @ ?r" by simp
  ultimately show ?thesis using span_split[of P "nm @ rest"] by blast
qed

lemma declaration_shape_iff:
  "declaration_shape line \<longleftrightarrow> re_match class_declaration_pattern line \<noteq> None"
proof
  assume "declaration_shape line"
  then obtain ws0 ws1 nm rest where
    l: "line = ws0 @ ''class'' @ ws1 @ nm @ rest"
    and c: "list_all is_space ws0" "ws1 \<noteq> []" "list_all is_space ws1" "nm \<noteq> []"
      "list_all is_name_char nm"
    unfolding declaration_shape_def is_identifier_def by blast
  from maximal_run[OF c(4,5), of rest] obtain nm' rest' where
    m: "nm @ rest = nm' @ rest'" "nm' \<noteq> []" "list_all is_name_char nm'"
      "rest' = [] \<or> \<not> is_name_char (hd rest')"
    by blast
  have "line = ws0 @ ''class'' @ ws1 @ nm' @ rest'" using l m(1) by simp
  then show "re_match class_declaration_pattern line \<noteq> None"
    using decl_recognise[OF c(1,2,3) m(2,3,4)] by auto
next
  assume "re_match class_declaration_pattern line \<noteq> None"
  then obtain ps where "re_match class_declaration_pattern line = Some ps" by blast
  from decl_invert[OF this] show "declaration_shape line"
    unfolding declaration_shape_def is_identifier_def by blast
qed

lemma relationship_shape_iff:
  "relationship_shape line \<longleftrightarrow> re_match relationship_pattern line \<noteq> None"
proof
  assume "relationship_shape line"
  then obtain ws0 src ws1 h t ws2 tgt rest where
    l: "line = ws0 @ src @ ws1 @ (h @ t) @ ws2 @ tgt @ rest"
    and c: "list_all is_space ws0" "src \<noteq> []" "list_all is_name_char src"
      "list_all is_space ws1" "h \<noteq> []" "list_all is_conn_head h"
      "t \<noteq> []" "list_all is_conn_tail t" "list_all is_space ws2"
    and g: "tgt \<noteq> []" "list_all is_name_char tgt"
    unfolding relationship_shape_def is_identifier_def is_connector_def by blast
  from maximal_run[OF g, of rest] obtain tgt' rest' where
    m: "tgt @ rest = tgt' @ rest'" "tgt' \<noteq> []" "list_all is_name_char tgt'"
      "rest' = [] \<or> \<not> is_name_char (hd rest')"
    by blast
  have "line = ws0 @ src @ ws1 @ h @ t @ ws2 @ tgt' @ rest'" using l m(1) by simp
  then show "re_match relationship_pattern line \<noteq> None"
    using rel_match_exists[OF c m(2,3,4)] by auto
next
  assume "re_match relationship_pattern line \<noteq> None"
  then obtain ps where "re_match relationship_pattern line = Some ps" by blast
  from rel_invert[OF this] obtain ws0 src ws1 h t ws2 tgt rest where
    l: "line = ws0 @ src @ ws1 @ h @ t @ ws2 @ tgt @ rest"
    and c: "list_all is_space ws0" "src \<noteq> []" "list_all is_name_char src"
      "list_all is_space ws1" "h \<noteq> []" "list_all is_conn_head h"
      "t \<noteq> []" "list_all is_conn_tail t" "list_all is_space ws2"
      "tgt \<noteq> []" "list_all is_name_char tgt"
    by blast
  have "line = ws0 @ src @ ws1 @ (h @ t) @ ws2 @ tgt @ rest" using l by simp
  moreover have "is_connector (h @ t)" unfolding is_connector_def using c(5,6,7,8) by blast
  moreover have "is_identifier src" "is_identifier tgt"
    unfolding is_identifier_def using c by simp_all
  ultimately show "relationship_shape line"
    unfolding relationship_shape_def using c(1,4,9) by blast
qed

text \<open>
  Claim C1: the pass returns, and in what it returns every identifier referenced by a
  relationship line, of the input or of the output, is declared: some line of the output
  is a declaration line of that identifier.
\<close>

theorem declared_covers_referenced:
  "\<exists>out. ensure_classes_declared ls = Inr out
     \<and> referenced_classes (scan_lines out) \<subseteq> declared_classes (scan_lines out)
     \<and> referenced_classes (scan_lines ls) \<subseteq> declared_classes (scan_lines out)
     \<and> (\<forall>x \<in> referenced_classes (scan_lines ls). \<exists>l \<in> set out. x \<in> line_decl l)"
proof -
  obtain pre post sep where s: "map line_out ls = pre @ post" "sep = [] \<or> sep = [[]]"
    and e: "ensure_classes_declared ls = Inr (pre @ sep @ synthesized (missing_of ls) @ post)"
    using ecd_shape by blast
  let ?out = "pre @ sep @ synthesized (missing_of ls) @ post"
  note c = closed_output[OF s]
  have a: "referenced_classes (scan_lines ls) \<subseteq> declared_classes (scan_lines ?out)"
    using c(2) by (auto simp: missing_of_def)
  then have b: "referenced_classes (scan_lines ?out) \<subseteq> declared_classes (scan_lines ?out)"
    using c(3) by simp
  have "\<forall>x \<in> referenced_classes (scan_lines ls). \<exists>l \<in> set ?out. x \<in> line_decl l"
    using a unfolding scan_lines_eq(1)[of ?out] by blast
  with e a b show ?thesis by blast
qed

theorem declared_covers_referenced_witness:
  "ensure_classes_declared [''A --> B.c''] = Inr [''A --> B_c'', [], ''class A'', ''class B_c'']
   \<and> referenced_classes (scan_lines [''A --> B.c'']) = {''A'', ''B_c''}
   \<and> {''A'', ''B_c''} \<subseteq> declared_classes (scan_lines [''A --> B_c'', [], ''class A'', ''class B_c''])
   \<and> (\<exists>l \<in> set [''A --> B_c'', [], ''class A'', ''class B_c'']. ''B_c'' \<in> line_decl l)"
proof -
  have e: "ensure_classes_declared [''A --> B.c''] = Inr [''A --> B_c'', [], ''class A'', ''class B_c'']"
    by code_simp
  have r: "referenced_classes (scan_lines [''A --> B.c'']) = {''A'', ''B_c''}"
    by code_simp
  show ?thesis
    using declared_covers_referenced[of "[''A --> B.c'']"] unfolding e r by auto
qed

text \<open>
  Claim C2: the pass applied to its own output returns that output; a second pass adds
  no declaration and changes no line.
\<close>

theorem ensure_classes_declared_idempotent:
  "\<exists>out. ensure_classes_declared ls = Inr out \<and> ensure_classes_declared out = Inr out"
proof -
  obtain pre post sep where s: "map line_out ls = pre @ post" "sep = [] \<or> sep = [[]]"
    and e: "ensure_classes_declared ls = Inr (pre @ sep @ synthesized (missing_of ls) @ post)"
    using ecd_shape by blast
  let ?out = "pre @ sep @ synthesized (missing_of ls) @ post"
  note c = closed_output[OF s]
  have "missing_of ?out
          = referenced_classes (scan_lines ?out) - declared_classes (scan_lines ?out)"
    by (rule missing_of_def)
  also have "\<dots> = referenced_classes (scan_lines ls)
                    - (declared_classes (scan_lines ls) \<union> missing_of ls)"
    using c(2,3) by simp
  also have "\<dots> = {}" by (auto simp: missing_of_def)
  finally have "missing_of ?out = {}" .
  from ecd_no_missing[OF this] have "ensure_classes_declared ?out = Inr ?out"
    using c(1) by simp
  with e show ?thesis by blast
qed

theorem ensure_classes_declared_idempotent_witness:
  "ensure_classes_declared [''A --> B.c'', ''```'']
     = Inr [''A --> B_c'', [], ''class A'', ''class B_c'', ''```'']
   \<and> ensure_classes_declared [''A --> B_c'', [], ''class A'', ''class B_c'', ''```'']
     = Inr [''A --> B_c'', [], ''class A'', ''class B_c'', ''```'']"
proof -
  have e: "ensure_classes_declared [''A --> B.c'', ''```'']
     = Inr [''A --> B_c'', [], ''class A'', ''class B_c'', ''```'']"
    by code_simp
  show ?thesis
    using ensure_classes_declared_idempotent[of "[''A --> B.c'', ''```'']"] unfolding e by auto
qed

text \<open>
  Claim C3: a declaration line is rewritten with only its identifier changed, its suffix
  kept character for character. The code does not do this on the declaration line
  \<^verbatim>\<open>class Foo { }\<close>: group 3 of the pattern stops before the first closing brace, and
  the rewritten line is made of the three groups only, so the closing brace is lost.
\<close>

theorem declaration_closing_brace_dropped:
  "declaration_shape ''class Foo { }''
   \<and> ensure_classes_declared [''class Foo { }''] = Inr [''class Foo { '']"
  unfolding declaration_shape_iff by code_simp



text \<open>
  Claim C8: when identifiers are missing, the block of their declarations is in sorted
  order without repetition; it is spliced before the last fence line, after one blank
  line when the line before the fence is not blank, and without a fence line it follows
  the rewritten lines and one blank line. On the document of the scenario the three
  declarations stand before the closing fence, after the one blank line that was there.
\<close>

theorem missing_declarations_inserted:
  assumes "missing_of ls \<noteq> {}"
  shows "sorted (sorted_list_of_set (missing_of ls))
    \<and> distinct (sorted_list_of_set (missing_of ls))
    \<and> set (sorted_list_of_set (missing_of ls)) = missing_of ls
    \<and> (\<forall>pre f post.
          processed_lines (scan_lines ls) = pre @ f # post \<and> strip f = ''```''
          \<and> (\<forall>l \<in> set post. strip l \<noteq> ''```'')
          \<longrightarrow> ensure_classes_declared ls
                = Inr (pre @ (if pre \<noteq> [] \<and> strip (last pre) \<noteq> [] then [[]] else [])
                       @ map (\<lambda>class_name. ''class '' @ class_name)
                           (sorted_list_of_set (missing_of ls))
                       @ f # post))
    \<and> ((\<forall>l \<in> set (processed_lines (scan_lines ls)). strip l \<noteq> ''```'')
          \<longrightarrow> ensure_classes_declared ls
                = Inr (processed_lines (scan_lines ls) @ [[]]
                       @ map (\<lambda>class_name. ''class '' @ class_name)
                           (sorted_list_of_set (missing_of ls))))"
proof -
  have f: "finite (missing_of ls)" by (rule missing_finite)
  have a: "\<forall>pre f post.
          processed_lines (scan_lines ls) = pre @ f # post \<and> strip f = ''```''
          \<and> (\<forall>l \<in> set post. strip l \<noteq> ''```'')
          \<longrightarrow> ensure_classes_declared ls
                = Inr (pre @ (if pre \<noteq> [] \<and> strip (last pre) \<noteq> [] then [[]] else [])
                       @ synthesized (missing_of ls) @ f # post)"
    using ecd_fence[OF assms] by (simp add: scan_lines_eq)
  have b: "(\<forall>l \<in> set (processed_lines (scan_lines ls)). strip l \<noteq> ''```'')
          \<longrightarrow> ensure_classes_declared ls
                = Inr (processed_lines (scan_lines ls) @ [[]] @ synthesized (missing_of ls))"
    using ecd_no_fence[OF assms] by (simp add: scan_lines_eq)
  have s: "sorted (sorted_list_of_set (missing_of ls))
      \<and> distinct (sorted_list_of_set (missing_of ls))
      \<and> set (sorted_list_of_set (missing_of ls)) = missing_of ls"
    using f by simp
  show ?thesis
    using s a[unfolded synthesized_def] b[unfolded synthesized_def] by blast
qed

theorem missing_declarations_inserted_witness:
  "missing_of scenario_input \<noteq> {}
   \<and> ensure_classes_declared scenario_input =
       Inr [''```mermaid'',
            ''classDiagram'',
            ''    class ChatHistoryManager {'',
            ''        -chatHistory: CoreMessage[]'',
            ''        +addMessage(role: 'user' | 'assistant', content: string): void'',
            ''    }'',
            '''',
            ''    Extension --> vscode_ExtensionContext'',
            ''    Extension --> FilteredTreeDataProvider'',
            '''',
            ''class Extension'',
            ''class FilteredTreeDataProvider'',
            ''class vscode_ExtensionContext'',
            ''```'']"
proof -
  let ?pre = "[''```mermaid'',
            ''classDiagram'',
            ''    class ChatHistoryManager {'',
            ''        -chatHistory: CoreMessage[]'',
            ''        +addMessage(role: 'user' | 'assistant', content: string): void'',
            ''    }'',
            '''',
            ''    Extension --> vscode_ExtensionContext'',
            ''    Extension --> FilteredTreeDataProvider'',
            '''']"
  have m: "missing_of scenario_input \<noteq> {}" by code_simp
  have p: "processed_lines (scan_lines scenario_input) = ?pre @ ''```'' # []" by code_simp
  have f: "strip ''```'' = ''```''" by code_simp
  have l: "strip (last ?pre) = []" by code_simp
  have s: "sorted_list_of_set (missing_of scenario_input)
             = [''Extension'', ''FilteredTreeDataProvider'', ''vscode_ExtensionContext'']"
    by code_simp
  from missing_declarations_inserted[OF m] p f
  have "ensure_classes_declared scenario_input
          = Inr (?pre @ (if ?pre \<noteq> [] \<and> strip (last ?pre) \<noteq> [] then [[]] else [])
                 @ map (\<lambda>class_name. ''class '' @ class_name)
                     (sorted_list_of_set (missing_of scenario_input))
                 @ ''```'' # [])"
    by (metis empty_iff list.set(1))
  then show ?thesis using m unfolding s l by simp
qed

text \<open>
  Claim C9: the pass returns a list on every input and never an error. The rewritten
  lines are as many as the input lines, a line of neither shape is emitted unchanged at
  its own index, and the result is the rewritten lines with one block spliced in.
\<close>

theorem ensure_classes_declared_total:
  "\<exists>out pre post block.
     ensure_classes_declared ls = Inr out
     \<and> processed_lines (scan_lines ls) = pre @ post \<and> out = pre @ block @ post
     \<and> length (processed_lines (scan_lines ls)) = length ls
     \<and> (\<forall>i < length ls. \<not> declaration_shape (ls ! i) \<and> \<not> relationship_shape (ls ! i)
            \<longrightarrow> processed_lines (scan_lines ls) ! i = ls ! i)"
proof -
  obtain pre post sep where s: "map line_out ls = pre @ post"
    and e: "ensure_classes_declared ls = Inr (pre @ sep @ synthesized (missing_of ls) @ post)"
    using ecd_shape by blast
  have p: "processed_lines (scan_lines ls) = pre @ post"
    using s by (simp add: scan_lines_eq)
  have n: "length (processed_lines (scan_lines ls)) = length ls"
    by (simp add: scan_lines_eq)
  have "\<forall>i < length ls. \<not> declaration_shape (ls ! i) \<and> \<not> relationship_shape (ls ! i)
            \<longrightarrow> processed_lines (scan_lines ls) ! i = ls ! i"
    using line_pass_case(1)
    by (simp add: scan_lines_eq declaration_shape_iff relationship_shape_iff)
  with e p n show ?thesis
    by (metis append_assoc)
qed

theorem ensure_classes_declared_total_witness:
  "ensure_classes_declared [''  note for A'', ''A --> B'', ''}'']
     = Inr [''  note for A'', ''A --> B'', ''}'', [], ''class A'', ''class B'']
   \<and> \<not> declaration_shape ''}'' \<and> \<not> relationship_shape ''}''
   \<and> processed_lines (scan_lines [''  note for A'', ''A --> B'', ''}'']) ! 2 = ''}''"
proof -
  let ?ls = "[''  note for A'', ''A --> B'', ''}'']"
  have e: "ensure_classes_declared ?ls
             = Inr [''  note for A'', ''A --> B'', ''}'', [], ''class A'', ''class B'']"
    by code_simp
  have d: "\<not> declaration_shape (?ls ! 2)" unfolding declaration_shape_iff by code_simp
  have r: "\<not> relationship_shape (?ls ! 2)" unfolding relationship_shape_iff by code_simp
  have i: "(2::nat) < length ?ls" by simp
  from ensure_classes_declared_total[of ?ls]
  have "\<forall>i < length ?ls. \<not> declaration_shape (?ls ! i) \<and> \<not> relationship_shape (?ls ! i)
            \<longrightarrow> processed_lines (scan_lines ?ls) ! i = ?ls ! i"
    by blast
  with i d r have "processed_lines (scan_lines ?ls) ! 2 = ?ls ! 2" by blast
  with e d r show ?thesis by simp
qed

text \<open>
  Claim C10: a declaration line adds its normalized identifier to the declared set and
  nothing to the referenced set, whatever follows the identifier; the line
  \<^verbatim>\<open>class A --> B\<close> declares \<open>A\<close> and references nothing.
\<close>

theorem declaration_line_adds_no_reference:
  assumes "line = ws0 @ ''class'' @ ws1 @ nm @ rest"
    and "list_all is_space ws0" "ws1 \<noteq> []" "list_all is_space ws1" "is_identifier nm"
    and "rest = [] \<or> \<not> is_name_char (hd rest)"
  shows "declaration_shape line
    \<and> referenced_classes (scan_line st line) = referenced_classes st
    \<and> declared_classes (scan_line st line)
        = insert (replace_dots_with_underscores nm) (declared_classes st)"
proof -
  have n: "nm \<noteq> []" "list_all is_name_char nm"
    using assms(5) by (simp_all add: is_identifier_def)
  note c = line_decl_case[OF assms(2,3,4) n assms(6)]
  have d: "line_decl line = {replace_dots_with_underscores nm}" "line_refs line = {}"
    unfolding assms(1) using c by simp_all
  have "declaration_shape line"
    unfolding declaration_shape_def using assms by blast
  then show ?thesis
    by (simp add: scan_line_eq[of st line] d)
qed

theorem declaration_line_adds_no_reference_witness:
  "declaration_shape ''class A --> B''
   \<and> referenced_classes (scan_line init_state ''class A --> B'') = {}
   \<and> declared_classes (scan_line init_state ''class A --> B'') = {''A''}"
proof -
  have a: "''class A --> B'' = [] @ ''class'' @ '' '' @ ''A'' @ '' --> B''" by simp
  have b: "list_all is_space []" "'' '' \<noteq> []" "list_all is_space '' ''" by simp_all
  have c: "is_identifier ''A''" by code_simp
  have d: "'' --> B'' = [] \<or> \<not> is_name_char (hd '' --> B'')" by code_simp
  have e: "replace_dots_with_underscores ''A'' = ''A''" by code_simp
  show ?thesis
    using declaration_line_adds_no_reference[OF a b c d, of init_state]
    by (simp add: e init_state_def)
qed

end
